theory Spec2Isabelle
  imports Main
begin

unbundle bit_operations_syntax

section \<open>The buddy allocator of buddy.c\<close>

subsection \<open>Constants and address macros\<close>

text \<open>
  Addresses inside the arena are modelled by their byte offset from \<open>g_memory\<close>;
  a result of type \<open>nat option\<close> is \<open>None\<close> for the C value \<open>NULL\<close>.
  A \<open>page_t *\<close> is modelled by the index of the page in \<open>g_pages\<close>.
\<close>

definition MIN_ORDER :: nat where
  "MIN_ORDER = 12"

definition MAX_ORDER :: nat where
  "MAX_ORDER = 20"

definition PAGE_SIZE :: nat where
  "PAGE_SIZE = 2 ^ MIN_ORDER"

definition n_pages :: nat where
  "n_pages = 2 ^ MAX_ORDER div PAGE_SIZE"

definition PAGE_TO_ADDR :: "nat \<Rightarrow> nat" where
  "PAGE_TO_ADDR page_idx = page_idx * PAGE_SIZE"

definition ADDR_TO_PAGE :: "nat \<Rightarrow> nat" where
  "ADDR_TO_PAGE addr = addr div PAGE_SIZE"

definition BUDDY_ADDR :: "nat \<Rightarrow> nat \<Rightarrow> nat" where
  "BUDDY_ADDR addr o' = addr XOR (2 ^ o')"

subsection \<open>Page descriptors and allocator state\<close>

text \<open>
  Modelled from the spec: the header \<open>list.h\<close> (the intrusive circular doubly-linked
  list of the Linux kernel) is not part of the sources.  Each free list is the
  sequence of the pages linked from its head, first the page \<open>head->next\<close>.  The
  \<open>next\<close>/\<open>prev\<close> pair embedded in a page descriptor is abstracted to what the program
  can observe of it: both pointers null (a zero-initialised global that was never
  linked), both pointing to the node itself (after \<open>list_del_init\<close>), or chained into
  the list headed by \<open>free_area[o]\<close>.
\<close>

datatype list_head = Null_links | Self_linked | Linked nat

record page_t =
  list :: list_head
  order :: int
  index :: int
  mem :: nat

record buddy_state =
  free_area :: "nat \<Rightarrow> nat list"
  g_pages :: "nat \<Rightarrow> page_t"

definition set_order :: "buddy_state \<Rightarrow> nat \<Rightarrow> int \<Rightarrow> buddy_state" where
  "set_order s p v = s\<lparr>g_pages := (g_pages s)(p := (g_pages s p)\<lparr>order := v\<rparr>)\<rparr>"

definition set_list :: "buddy_state \<Rightarrow> nat \<Rightarrow> list_head \<Rightarrow> buddy_state" where
  "set_list s p v = s\<lparr>g_pages := (g_pages s)(p := (g_pages s p)\<lparr>list := v\<rparr>)\<rparr>"

subsection \<open>The list library\<close>

text \<open>
  Modelled from the spec: \<open>list_empty\<close>, \<open>list_add\<close> and \<open>list_del_init\<close> of the
  missing \<open>list.h\<close>.  An operation returns \<open>None\<close> where the C code would dereference
  a null pointer (a head below \<open>MIN_ORDER\<close> is never initialised by \<open>buddy_init\<close>, a
  page node never linked has null pointers) or would link a node that is still a
  member of a list, which destroys the list structure.
\<close>

definition list_empty_head :: "buddy_state \<Rightarrow> nat \<Rightarrow> bool" where
  "list_empty_head s i = (free_area s i = [])"

definition list_empty_node :: "buddy_state \<Rightarrow> nat \<Rightarrow> bool" where
  "list_empty_node s p = (list (g_pages s p) = Self_linked)"

definition list_add :: "buddy_state \<Rightarrow> nat \<Rightarrow> nat \<Rightarrow> buddy_state option" where
  "list_add s p i =
     (if i < MIN_ORDER \<or> MAX_ORDER < i then None
      else case list (g_pages s p) of
             Linked j \<Rightarrow> None
           | _ \<Rightarrow> Some (set_list (s\<lparr>free_area := (free_area s)(i := p # free_area s i)\<rparr>)
                          p (Linked i)))"

definition list_del_init :: "buddy_state \<Rightarrow> nat \<Rightarrow> buddy_state option" where
  "list_del_init s p =
     (case list (g_pages s p) of
        Null_links \<Rightarrow> None
      | Self_linked \<Rightarrow> Some s
      | Linked j \<Rightarrow>
          Some (set_list (s\<lparr>free_area := (free_area s)(j := remove1 p (free_area s j))\<rparr>)
                  p Self_linked))"

subsection \<open>orderFor\<close>

function orderFor_loop :: "nat \<Rightarrow> int \<Rightarrow> int" where
  "orderFor_loop order' size' =
     (if order' \<le> MAX_ORDER
      then (if (2::int) ^ order' \<ge> size' then int order' else orderFor_loop (order' + 1) size')
      else - 1)"
  by pat_completeness auto
termination
  by (relation "measure (\<lambda>(order', size'). Suc MAX_ORDER - order')") auto

definition orderFor :: "int \<Rightarrow> int" where
  "orderFor size' = orderFor_loop MIN_ORDER size'"

subsection \<open>split\<close>

function split :: "buddy_state \<Rightarrow> nat \<Rightarrow> nat \<Rightarrow> nat \<Rightarrow> buddy_state option" where
  "split s page current_order target_order =
     (if current_order > target_order
      then (let current_order' = current_order - 1;
                buddy_index = ADDR_TO_PAGE (BUDDY_ADDR (mem (g_pages s page)) current_order')
            in if n_pages \<le> buddy_index then None
               else case list_add (set_order s buddy_index (int current_order'))
                                  buddy_index current_order' of
                      None \<Rightarrow> None
                    | Some s' \<Rightarrow> split s' page current_order' target_order)
      else Some s)"
  by pat_completeness auto
termination
  by (relation "measure (\<lambda>(s, page, current_order, target_order). current_order)") auto

subsection \<open>buddy_init\<close>

text \<open>
  The state after \<open>buddy_init\<close> on the zero-initialised globals of a fresh process:
  every descriptor has order \<open>-1\<close>, the heads from \<open>MIN_ORDER\<close> to \<open>MAX_ORDER\<close> are
  empty lists, and page 0 is then linked into \<open>free_area[MAX_ORDER]\<close>.  The order
  field of page 0 is left at \<open>-1\<close>, as in the source.
\<close>

definition buddy_init :: buddy_state where
  "buddy_init =
     \<lparr>free_area = (\<lambda>i. [])(MAX_ORDER := [0]),
      g_pages = (\<lambda>i. \<lparr>list = Null_links, order = - 1, index = int i, mem = PAGE_TO_ADDR i\<rparr>)
                  (0 := \<lparr>list = Linked MAX_ORDER, order = - 1, index = 0, mem = PAGE_TO_ADDR 0\<rparr>)\<rparr>"

subsection \<open>buddy_alloc\<close>

text \<open>
  The result is \<open>None\<close> when the run leaves the modelled behaviour of C (see the list
  library), otherwise the new state and the returned pointer.
\<close>

function alloc_loop :: "buddy_state \<Rightarrow> nat \<Rightarrow> nat \<Rightarrow> (buddy_state \<times> nat option) option" where
  "alloc_loop s order' i =
     (if i \<le> MAX_ORDER
      then (if \<not> list_empty_head s i
            then (let page = hd (free_area s i)
                  in if i = order'
                     then (case list_del_init s page of
                             None \<Rightarrow> None
                           | Some s1 \<Rightarrow>
                               (let s2 = set_order s1 page (int order')
                                in Some (s2, Some (mem (g_pages s2 page)))))
                     else (case list_del_init s page of
                             None \<Rightarrow> None
                           | Some s1 \<Rightarrow>
                               (case split s1 page i order' of
                                  None \<Rightarrow> None
                                | Some s2 \<Rightarrow>
                                    (let s3 = set_order s2 page (int order')
                                     in Some (s3, Some (mem (g_pages s3 page)))))))
            else alloc_loop s order' (i + 1))
      else Some (s, None))"
  by pat_completeness auto
termination
  by (relation "measure (\<lambda>(s, order', i). Suc MAX_ORDER - i)") auto

definition buddy_alloc :: "buddy_state \<Rightarrow> int \<Rightarrow> (buddy_state \<times> nat option) option" where
  "buddy_alloc s size' =
     (let order' = orderFor size'
      in if order' = - 1 then Some (s, None)
         else alloc_loop s (nat order') (nat order'))"

subsection \<open>buddy_free\<close>

definition free_finish :: "buddy_state \<Rightarrow> nat \<Rightarrow> nat \<Rightarrow> buddy_state option" where
  "free_finish s page order' = list_add (set_order s page (int order')) page order'"

function free_loop :: "buddy_state \<Rightarrow> nat \<Rightarrow> nat \<Rightarrow> buddy_state option" where
  "free_loop s page order' =
     (if order' < MAX_ORDER
      then (let buddy_index = ADDR_TO_PAGE (BUDDY_ADDR (mem (g_pages s page)) order')
            in if n_pages \<le> buddy_index then None
               else if order (g_pages s buddy_index) \<noteq> int order' \<or> list_empty_node s buddy_index
               then free_finish s page order'
               else (case list_del_init s buddy_index of
                       None \<Rightarrow> None
                     | Some s' \<Rightarrow>
                         free_loop s' (if buddy_index < page then buddy_index else page)
                           (order' + 1)))
      else free_finish s page order')"
  by pat_completeness auto
termination
  by (relation "measure (\<lambda>(s, page, order'). MAX_ORDER - order')") auto

text \<open>
  \<open>None\<close> also stands for the undefined behaviour of C on an address outside the arena
  (the index into \<open>g_pages\<close> is out of bounds) and on a descriptor whose order is
  negative (\<open>1 << order\<close> with a negative count).
\<close>

definition buddy_free :: "buddy_state \<Rightarrow> nat \<Rightarrow> buddy_state option" where
  "buddy_free s addr =
     (if n_pages \<le> ADDR_TO_PAGE addr then None
      else (let page = ADDR_TO_PAGE addr; order' = order (g_pages s page)
            in if order' < 0 then None else free_loop s page (nat order')))"

section \<open>Specification notions\<close>

subsection \<open>Blocks and the partition of the arena\<close>

text \<open>
  A block is a base address (an offset into the arena) and an order, together with who
  holds it: a free list, a caller (a live allocation), or the operation in progress
  (the block \<open>buddy_alloc\<close> has unlinked and is splitting, or the block \<open>buddy_free\<close>
  is merging upwards).  Its region is the set of its bytes.
\<close>

datatype owner = Free | Live | Hand

definition region :: "owner \<times> nat \<times> nat \<Rightarrow> nat set" where
  "region b = {fst (snd b) ..< fst (snd b) + 2 ^ snd (snd b)}"

definition part :: "(owner \<times> nat \<times> nat) set \<Rightarrow> bool" where
  "part B = ((\<forall>b\<in>B. \<forall>c\<in>B. b \<noteq> c \<longrightarrow> region b \<inter> region c = {})
             \<and> (\<Union>b\<in>B. region b) = {..<2 ^ MAX_ORDER})"

text \<open>
  The order of a live allocation is the one its descriptor records; \<open>L\<close> is the set of
  the addresses returned by \<open>buddy_alloc\<close> and not yet passed to \<open>buddy_free\<close>.
\<close>

definition live_blocks :: "buddy_state \<Rightarrow> nat set \<Rightarrow> (owner \<times> nat \<times> nat) set" where
  "live_blocks s L = (\<lambda>a. (Live, a, nat (order (g_pages s (ADDR_TO_PAGE a))))) ` L"

definition free_blocks :: "buddy_state \<Rightarrow> (owner \<times> nat \<times> nat) set" where
  "free_blocks s =
     {(Free, PAGE_TO_ADDR p, i) | p i. MIN_ORDER \<le> i \<and> i \<le> MAX_ORDER \<and> p \<in> set (free_area s i)}"

definition hand_blocks :: "(nat \<times> nat) set \<Rightarrow> (owner \<times> nat \<times> nat) set" where
  "hand_blocks H = (\<lambda>h. (Hand, fst h, snd h)) ` H"

definition blocks :: "buddy_state \<Rightarrow> nat set \<Rightarrow> (nat \<times> nat) set \<Rightarrow> (owner \<times> nat \<times> nat) set" where
  "blocks s L H = live_blocks s L \<union> free_blocks s \<union> hand_blocks H"

definition geometry :: "(owner \<times> nat \<times> nat) set \<Rightarrow> bool" where
  "geometry B = (\<forall>b\<in>B. MIN_ORDER \<le> snd (snd b) \<and> snd (snd b) \<le> MAX_ORDER
                      \<and> 2 ^ snd (snd b) dvd fst (snd b) \<and> fst (snd b) < 2 ^ MAX_ORDER)"

subsection \<open>The invariant of the allocator\<close>

definition pages_ok :: "buddy_state \<Rightarrow> bool" where
  "pages_ok s = (\<forall>p<n_pages. mem (g_pages s p) = PAGE_TO_ADDR p)"

definition links_ok :: "buddy_state \<Rightarrow> bool" where
  "links_ok s = (\<forall>p i. (list (g_pages s p) = Linked i)
                        = (MIN_ORDER \<le> i \<and> i \<le> MAX_ORDER \<and> p \<in> set (free_area s i)))"

definition lists_distinct :: "buddy_state \<Rightarrow> bool" where
  "lists_distinct s = (\<forall>i. distinct (free_area s i))"

definition free_order :: "buddy_state \<Rightarrow> bool" where
  "free_order s = (\<forall>i p. MIN_ORDER \<le> i \<and> i < MAX_ORDER \<and> p \<in> set (free_area s i)
                          \<longrightarrow> order (g_pages s p) = int i)"

definition owned_ok :: "buddy_state \<Rightarrow> nat set \<Rightarrow> (nat \<times> nat) set \<Rightarrow> bool" where
  "owned_ok s L H = (\<forall>a\<in>L \<union> fst ` H. list (g_pages s (ADDR_TO_PAGE a)) = Self_linked)"

definition null_ok :: "buddy_state \<Rightarrow> bool" where
  "null_ok s = (\<forall>p. list (g_pages s p) = Null_links \<longrightarrow> order (g_pages s p) = - 1)"

text \<open>
  Complete coalescing: no free block below \<open>MAX_ORDER\<close> has its buddy in the free list
  of the same order.
\<close>

definition coalesced :: "buddy_state \<Rightarrow> bool" where
  "coalesced s = (\<forall>i p. MIN_ORDER \<le> i \<and> i < MAX_ORDER \<and> p \<in> set (free_area s i)
                        \<longrightarrow> ADDR_TO_PAGE (BUDDY_ADDR (PAGE_TO_ADDR p) i) \<notin> set (free_area s i))"

definition buddy_inv :: "buddy_state \<Rightarrow> nat set \<Rightarrow> (nat \<times> nat) set \<Rightarrow> bool" where
  "buddy_inv s L H =
     (pages_ok s \<and> links_ok s \<and> lists_distinct s \<and> free_order s \<and> owned_ok s L H
      \<and> null_ok s \<and> coalesced s \<and> geometry (blocks s L H) \<and> part (blocks s L H))"

subsection \<open>Reachable states\<close>

text \<open>
  The states reachable from the initialised allocator by well-behaved calls: any
  \<open>buddy_alloc\<close>, and \<open>buddy_free\<close> of an address that is currently allocated.
\<close>

inductive reach :: "buddy_state \<Rightarrow> nat set \<Rightarrow> bool" where
  reach_init: "reach buddy_init {}"
| reach_alloc: "reach s L \<Longrightarrow> buddy_alloc s size' = Some (s', Some a) \<Longrightarrow> reach s' (insert a L)"
| reach_alloc_fail: "reach s L \<Longrightarrow> buddy_alloc s size' = Some (s', None) \<Longrightarrow> reach s' L"
| reach_free: "reach s L \<Longrightarrow> a \<in> L \<Longrightarrow> buddy_free s a = Some s' \<Longrightarrow> reach s' (L - {a})"

text \<open>
  The blocks of a state between two calls: the live allocations and the free blocks.
\<close>

definition arena_blocks :: "buddy_state \<Rightarrow> nat set \<Rightarrow> (owner \<times> nat \<times> nat) set" where
  "arena_blocks s L = live_blocks s L \<union> free_blocks s"

text \<open>
  The configurations at the head of the coalescing loop of \<open>buddy_free\<close>, over all
  releases of a live address in a reachable state: the state, the allocations that
  stay live, the page of the block being merged and its current order.
\<close>

inductive free_iter :: "buddy_state \<Rightarrow> nat set \<Rightarrow> nat \<Rightarrow> nat \<Rightarrow> bool" where
  free_iter_start:
    "reach s L \<Longrightarrow> a \<in> L \<Longrightarrow>
       free_iter s (L - {a}) (ADDR_TO_PAGE a) (nat (order (g_pages s (ADDR_TO_PAGE a))))"
| free_iter_merge:
    "free_iter s L page order' \<Longrightarrow> order' < MAX_ORDER \<Longrightarrow>
       buddy_index = ADDR_TO_PAGE (BUDDY_ADDR (mem (g_pages s page)) order') \<Longrightarrow>
       buddy_index < n_pages \<Longrightarrow>
       \<not> (order (g_pages s buddy_index) \<noteq> int order' \<or> list_empty_node s buddy_index) \<Longrightarrow>
       list_del_init s buddy_index = Some s' \<Longrightarrow>
       free_iter s' L (if buddy_index < page then buddy_index else page) (order' + 1)"

subsection \<open>Coalescing as the specification words it\<close>

text \<open>
  The release loop in the words of the specification, on the free lists alone: while
  the order is below \<open>MAX_ORDER\<close> and the buddy is free at the same order (a member of
  that order's free list), remove the buddy, keep the lower of the two as the merged
  block and go one order up; then insert the block into the free list of its order.
\<close>

function coalesce :: "(nat \<Rightarrow> nat list) \<Rightarrow> nat \<Rightarrow> nat \<Rightarrow> (nat \<Rightarrow> nat list)" where
  "coalesce fa page order' =
     (let buddy = ADDR_TO_PAGE (BUDDY_ADDR (PAGE_TO_ADDR page) order')
      in if order' < MAX_ORDER \<and> buddy \<in> set (fa order')
         then coalesce (fa(order' := remove1 buddy (fa order'))) (min buddy page) (order' + 1)
         else fa(order' := page # fa order'))"
  by pat_completeness auto
termination
  by (relation "measure (\<lambda>(fa, page, order'). MAX_ORDER - order')") auto

section \<open>Verification\<close>

text \<open>
  The loops are unfolded one iteration at a time, where a proof asks for it.
\<close>

declare split.simps [simp del]
declare alloc_loop.simps [simp del]
declare free_loop.simps [simp del]
declare coalesce.simps [simp del]

subsection \<open>Buddy arithmetic\<close>

lemma xor_pow_aligned:
  fixes a :: nat
  assumes "2 ^ Suc k dvd a"
  shows "a XOR 2 ^ k = a + 2 ^ k"
proof -
  from assms obtain m where m: "a = 2 ^ Suc k * m" by (auto simp: dvd_def)
  have "a XOR 2 ^ k = push_bit k (2 * m) XOR push_bit k 1"
    by (simp add: m push_bit_eq_mult ac_simps)
  also have "\<dots> = push_bit k ((2 * m) XOR 1)" by (simp only: push_bit_xor)
  also have "(2 * m) XOR 1 = 2 * m + 1" by (simp add: xor_Suc_0_eq)
  finally show ?thesis by (simp add: m push_bit_eq_mult algebra_simps)
qed

lemma xor_pow_unaligned:
  fixes a :: nat
  assumes "2 ^ k dvd a" "\<not> 2 ^ Suc k dvd a"
  shows "2 ^ k \<le> a \<and> a XOR 2 ^ k = a - 2 ^ k \<and> 2 ^ Suc k dvd (a - 2 ^ k)"
proof -
  from assms(1) obtain m where m: "a = 2 ^ k * m" by (auto simp: dvd_def)
  from assms(2) have odd: "odd m" by (auto simp: m)
  then obtain n where n: "m = 2 * n + 1" by (auto elim: oddE)
  have "a XOR 2 ^ k = push_bit k m XOR push_bit k 1"
    by (simp add: m push_bit_eq_mult ac_simps)
  also have "\<dots> = push_bit k (m XOR 1)" by (simp only: push_bit_xor)
  also have "m XOR 1 = 2 * n" using n by (simp add: xor_Suc_0_eq)
  finally have "a XOR 2 ^ k = 2 ^ k * (2 * n)" by (simp add: push_bit_eq_mult)
  moreover have "a = 2 ^ k * (2 * n) + 2 ^ k" by (simp add: m n algebra_simps)
  ultimately show ?thesis by simp
qed

lemma xor_pow_involution: "((a::nat) XOR 2 ^ k) XOR 2 ^ k = a"
  by (simp add: xor.assoc)

subsection \<open>Partitions\<close>

lemma region_nonempty: "region b \<noteq> {}"
  by (simp add: region_def)

lemma base_in_region: "fst (snd b) \<in> region b"
  by (simp add: region_def)

lemma part_overlap_eq:
  "part B \<Longrightarrow> b \<in> B \<Longrightarrow> c \<in> B \<Longrightarrow> x \<in> region b \<Longrightarrow> x \<in> region c \<Longrightarrow> b = c"
  unfolding part_def by blast

lemma part_retag:
  assumes "part B" "b \<in> B" "region b' = region b"
  shows "part (insert b' (B - {b}))"
proof -
  define D where "D x y = (region x \<inter> region y = {})" for x y
  have sym: "D x y \<Longrightarrow> D y x" for x y by (auto simp: D_def)
  have dj: "x \<in> B \<Longrightarrow> y \<in> B \<Longrightarrow> x \<noteq> y \<Longrightarrow> D x y" for x y
    using assms(1) by (simp add: part_def D_def)
  have u: "(\<Union>x\<in>B. region x) = {..<2 ^ MAX_ORDER}"
    using assms(1) by (simp add: part_def)
  have old: "D z b'" if "z \<in> B" "z \<noteq> b" for z
    using dj[OF that(1) assms(2) that(2)] by (simp add: D_def assms(3))
  have un: "(\<Union>x\<in>insert b' (B - {b}). region x) = (\<Union>x\<in>B. region x)"
  proof -
    have "(\<Union>x\<in>insert b' (B - {b}). region x) = region b \<union> (\<Union>x\<in>B - {b}. region x)"
      by (simp add: assms(3))
    also have "\<dots> = (\<Union>x\<in>B. region x)"
    proof -
      have "B = insert b (B - {b})" using assms(2) by blast
      then show ?thesis by (metis UN_insert)
    qed
    finally show ?thesis .
  qed
  have "D x y"
    if "x \<in> insert b' (B - {b})" "y \<in> insert b' (B - {b})" "x \<noteq> y" for x y
  proof -
    from that(1) have x: "x = b' \<or> (x \<in> B \<and> x \<noteq> b)" by simp
    from that(2) have y: "y = b' \<or> (y \<in> B \<and> y \<noteq> b)" by simp
    from x y that(3) show ?thesis
      using sym old dj by metis
  qed
  then show ?thesis using u un unfolding part_def D_def by simp
qed

lemma part_split:
  assumes "part B" "b \<in> B"
    and "region c \<union> region d = region b" "region c \<inter> region d = {}"
  shows "part (insert c (insert d (B - {b})))"
proof -
  define D where "D x y = (region x \<inter> region y = {})" for x y
  have sym: "D x y \<Longrightarrow> D y x" for x y by (auto simp: D_def)
  have dj: "x \<in> B \<Longrightarrow> y \<in> B \<Longrightarrow> x \<noteq> y \<Longrightarrow> D x y" for x y
    using assms(1) by (simp add: part_def D_def)
  have u: "(\<Union>x\<in>B. region x) = {..<2 ^ MAX_ORDER}"
    using assms(1) by (simp add: part_def)
  have cd: "D c d" using assms(4) by (simp add: D_def)
  have oldc: "D z c" if "z \<in> B" "z \<noteq> b" for z
  proof -
    have "region z \<inter> region b = {}" using dj[OF that(1) assms(2) that(2)] by (simp add: D_def)
    moreover have "region c \<subseteq> region b" using assms(3) by blast
    ultimately show ?thesis unfolding D_def by blast
  qed
  have oldd: "D z d" if "z \<in> B" "z \<noteq> b" for z
  proof -
    have "region z \<inter> region b = {}" using dj[OF that(1) assms(2) that(2)] by (simp add: D_def)
    moreover have "region d \<subseteq> region b" using assms(3) by blast
    ultimately show ?thesis unfolding D_def by blast
  qed
  have un: "(\<Union>x\<in>insert c (insert d (B - {b})). region x) = (\<Union>x\<in>B. region x)"
  proof -
    have "(\<Union>x\<in>insert c (insert d (B - {b})). region x)
            = (region c \<union> region d) \<union> (\<Union>x\<in>B - {b}. region x)"
      by (simp add: Un_assoc)
    also have "\<dots> = region b \<union> (\<Union>x\<in>B - {b}. region x)" by (simp add: assms(3))
    also have "\<dots> = (\<Union>x\<in>B. region x)"
    proof -
      have "B = insert b (B - {b})" using assms(2) by blast
      then show ?thesis by (metis UN_insert)
    qed
    finally show ?thesis .
  qed
  have "D x y"
    if "x \<in> insert c (insert d (B - {b}))" "y \<in> insert c (insert d (B - {b}))" "x \<noteq> y" for x y
  proof -
    from that(1) have x: "x = c \<or> x = d \<or> (x \<in> B \<and> x \<noteq> b)" by simp
    from that(2) have y: "y = c \<or> y = d \<or> (y \<in> B \<and> y \<noteq> b)" by simp
    from x y that(3) show ?thesis
      using sym cd oldc oldd dj by metis
  qed
  then show ?thesis using u un unfolding part_def D_def by simp
qed

lemma part_merge:
  assumes "part B" "c \<in> B" "d \<in> B"
    and "region e = region c \<union> region d"
  shows "part (insert e (B - {c, d}))"
proof -
  define D where "D x y = (region x \<inter> region y = {})" for x y
  have sym: "D x y \<Longrightarrow> D y x" for x y by (auto simp: D_def)
  have dj: "x \<in> B \<Longrightarrow> y \<in> B \<Longrightarrow> x \<noteq> y \<Longrightarrow> D x y" for x y
    using assms(1) by (simp add: part_def D_def)
  have u: "(\<Union>x\<in>B. region x) = {..<2 ^ MAX_ORDER}"
    using assms(1) by (simp add: part_def)
  have olde: "D z e" if "z \<in> B" "z \<noteq> c" "z \<noteq> d" for z
  proof -
    have "region z \<inter> region c = {}" using dj[OF that(1) assms(2) that(2)] by (simp add: D_def)
    moreover have "region z \<inter> region d = {}" using dj[OF that(1) assms(3) that(3)] by (simp add: D_def)
    ultimately show ?thesis unfolding D_def assms(4) by blast
  qed
  have un: "(\<Union>x\<in>insert e (B - {c, d}). region x) = (\<Union>x\<in>B. region x)"
  proof -
    have "(\<Union>x\<in>insert e (B - {c, d}). region x) = (\<Union>x\<in>insert c (insert d (B - {c, d})). region x)"
      by (simp add: assms(4) Un_assoc)
    also have "\<dots> = (\<Union>x\<in>B. region x)"
    proof -
      have "B = insert c (insert d (B - {c, d}))" using assms(2,3) by blast
      then show ?thesis by metis
    qed
    finally show ?thesis .
  qed
  have "D x y"
    if "x \<in> insert e (B - {c, d})" "y \<in> insert e (B - {c, d})" "x \<noteq> y" for x y
  proof -
    from that(1) have x: "x = e \<or> (x \<in> B \<and> x \<noteq> c \<and> x \<noteq> d)" by simp
    from that(2) have y: "y = e \<or> (y \<in> B \<and> y \<noteq> c \<and> y \<noteq> d)" by simp
    from x y that(3) show ?thesis
      using sym olde dj by metis
  qed
  then show ?thesis using u un unfolding part_def D_def by simp
qed

subsection \<open>Addresses, pages and state updates\<close>

lemma PAGE_SIZE_eq: "PAGE_SIZE = 4096"
  by (simp add: PAGE_SIZE_def MIN_ORDER_def)

lemma n_pages_eq: "n_pages = 256"
  by (simp add: n_pages_def PAGE_SIZE_eq MAX_ORDER_def)

lemma ADDR_TO_PAGE_inverse [simp]: "ADDR_TO_PAGE (PAGE_TO_ADDR p) = p"
  by (simp add: ADDR_TO_PAGE_def PAGE_TO_ADDR_def PAGE_SIZE_eq)

lemma PAGE_TO_ADDR_inj [simp]: "(PAGE_TO_ADDR p = PAGE_TO_ADDR q) = (p = q)"
  by (simp add: PAGE_TO_ADDR_def PAGE_SIZE_eq)

lemma pow_dvd_page:
  assumes "MIN_ORDER \<le> i" "2 ^ i dvd (a::nat)"
  shows "PAGE_SIZE dvd a"
proof -
  have "(2::nat) ^ MIN_ORDER dvd 2 ^ i" using assms(1) by (rule le_imp_power_dvd)
  then show ?thesis using assms(2) unfolding PAGE_SIZE_def by (rule dvd_trans)
qed

lemma PAGE_TO_ADDR_inverse:
  "PAGE_SIZE dvd a \<Longrightarrow> PAGE_TO_ADDR (ADDR_TO_PAGE a) = a"
  by (simp add: ADDR_TO_PAGE_def PAGE_TO_ADDR_def)

lemma ADDR_TO_PAGE_less:
  "a < 2 ^ MAX_ORDER \<Longrightarrow> ADDR_TO_PAGE a < n_pages"
  by (simp add: ADDR_TO_PAGE_def n_pages_def PAGE_SIZE_def MAX_ORDER_def MIN_ORDER_def) 

lemma aligned_top:
  assumes "2 ^ i dvd (a::nat)" "a < 2 ^ n" "i \<le> n"
  shows "a + 2 ^ i \<le> 2 ^ n"
proof -
  from assms(1) obtain m where m: "a = 2 ^ i * m" by (auto simp: dvd_def)
  have n: "(2::nat) ^ n = 2 ^ i * 2 ^ (n - i)" using assms(3) by (simp flip: power_add)
  from assms(2) have "m < 2 ^ (n - i)" unfolding m n by simp
  then have "Suc m \<le> 2 ^ (n - i)" by simp
  then have "2 ^ i * Suc m \<le> 2 ^ i * 2 ^ (n - i)" by (rule mult_le_mono2)
  then show ?thesis unfolding m n by simp
qed

lemma free_area_set_order [simp]: "free_area (set_order s p v) = free_area s"
  by (simp add: set_order_def)

lemma free_area_set_list [simp]: "free_area (set_list s p v) = free_area s"
  by (simp add: set_list_def)

lemma g_pages_set_order:
  "g_pages (set_order s p v) q = (if q = p then (g_pages s p)\<lparr>order := v\<rparr> else g_pages s q)"
  by (simp add: set_order_def)

lemma g_pages_set_list:
  "g_pages (set_list s p v) q = (if q = p then (g_pages s p)\<lparr>list := v\<rparr> else g_pages s q)"
  by (simp add: set_list_def)

lemma region_eq: "region (t, a, i) = {a ..< a + 2 ^ i}"
  by (simp add: region_def)

lemma region_halves:
  "region (t, a, Suc k) = region (t1, a, k) \<union> region (t2, a + 2 ^ k, k)"
  "region (t1, a, k) \<inter> region (t2, a + 2 ^ k, k) = {}"
  by (auto simp: region_eq)

subsection \<open>Order computation\<close>

lemma orderFor_loop_Some:
  "orderFor_loop k sz = int r \<Longrightarrow>
     k \<le> r \<and> r \<le> MAX_ORDER \<and> sz \<le> 2 ^ r \<and> (\<forall>j. k \<le> j \<and> j < r \<longrightarrow> \<not> sz \<le> 2 ^ j)"
proof (induction k sz rule: orderFor_loop.induct)
  case (1 k sz)
  show ?case
  proof (cases "k \<le> MAX_ORDER")
    case False
    with "1.prems" show ?thesis by simp
  next
    case True
    show ?thesis
    proof (cases "sz \<le> 2 ^ k")
      case True
      with \<open>k \<le> MAX_ORDER\<close> "1.prems" show ?thesis by simp
    next
      case False
      with \<open>k \<le> MAX_ORDER\<close> "1.prems" have "orderFor_loop (k + 1) sz = int r" by simp
      from "1.IH"[OF \<open>k \<le> MAX_ORDER\<close> False this] False show ?thesis
        by (metis Suc_eq_plus1 Suc_leI le_neq_implies_less Suc_leD)
    qed
  qed
qed

lemma orderFor_loop_fail:
  "(orderFor_loop k sz = - 1) = (\<forall>j. k \<le> j \<and> j \<le> MAX_ORDER \<longrightarrow> \<not> sz \<le> 2 ^ j)"
proof (induction k sz rule: orderFor_loop.induct)
  case (1 k sz)
  show ?case
  proof (cases "k \<le> MAX_ORDER")
    case False
    then show ?thesis by simp
  next
    case True
    show ?thesis
    proof (cases "sz \<le> 2 ^ k")
      case True
      with \<open>k \<le> MAX_ORDER\<close> show ?thesis by auto
    next
      case False
      with \<open>k \<le> MAX_ORDER\<close>
      have "(orderFor_loop k sz = - 1) = (orderFor_loop (k + 1) sz = - 1)" by simp
      also have "\<dots> = (\<forall>j. k + 1 \<le> j \<and> j \<le> MAX_ORDER \<longrightarrow> \<not> sz \<le> 2 ^ j)"
        using "1.IH"[OF \<open>k \<le> MAX_ORDER\<close> False] .
      also have "\<dots> = (\<forall>j. k \<le> j \<and> j \<le> MAX_ORDER \<longrightarrow> \<not> sz \<le> 2 ^ j)"
        using False by (metis Suc_eq_plus1 Suc_leI le_neq_implies_less Suc_leD)
      finally show ?thesis .
    qed
  qed
qed

lemma orderFor_loop_range:
  "orderFor_loop k sz = - 1 \<or> (\<exists>r. orderFor_loop k sz = int r)"
  by (induction k sz rule: orderFor_loop.induct)
     (auto simp del: orderFor_loop.simps simp add: orderFor_loop.simps[of _ _])

lemma orderFor_cases:
  "orderFor sz = - 1 \<or>
   (\<exists>r. orderFor sz = int r \<and> MIN_ORDER \<le> r \<and> r \<le> MAX_ORDER \<and> sz \<le> 2 ^ r)"
  unfolding orderFor_def
  using orderFor_loop_range[of MIN_ORDER sz] orderFor_loop_Some[of MIN_ORDER sz] by blast

text \<open>
  C4.  For a size between 1 and \<open>2^MAX_ORDER\<close>, \<open>orderFor\<close> returns the smallest order
  between \<open>MIN_ORDER\<close> and \<open>MAX_ORDER\<close> whose block holds the size; for a larger size it
  returns the sentinel \<open>-1\<close>.  \<open>orderFor\<close> takes no allocator state and returns none,
  so it has no effect on it.
\<close>

theorem orderFor_smallest_order:
  "(1 \<le> size' \<and> size' \<le> 2 ^ MAX_ORDER \<longrightarrow>
      (\<exists>k. orderFor size' = int k \<and> MIN_ORDER \<le> k \<and> k \<le> MAX_ORDER \<and> size' \<le> 2 ^ k \<and>
           (\<forall>j. MIN_ORDER \<le> j \<and> j \<le> MAX_ORDER \<and> size' \<le> 2 ^ j \<longrightarrow> k \<le> j)))
   \<and> (2 ^ MAX_ORDER < size' \<longrightarrow> orderFor size' = - 1)"
proof (intro conjI impI)
  assume a: "1 \<le> size' \<and> size' \<le> 2 ^ MAX_ORDER"
  have "MIN_ORDER \<le> MAX_ORDER" by (simp add: MIN_ORDER_def MAX_ORDER_def)
  with a have "orderFor size' \<noteq> - 1"
    unfolding orderFor_def orderFor_loop_fail by blast
  with orderFor_loop_range[of MIN_ORDER size']
  obtain k where k: "orderFor_loop MIN_ORDER size' = int k"
    unfolding orderFor_def by blast
  from orderFor_loop_Some[OF k]
  have "MIN_ORDER \<le> k" "k \<le> MAX_ORDER" "size' \<le> 2 ^ k"
    and least: "\<forall>j. MIN_ORDER \<le> j \<and> j < k \<longrightarrow> \<not> size' \<le> 2 ^ j"
    by blast+
  moreover have "\<forall>j. MIN_ORDER \<le> j \<and> j \<le> MAX_ORDER \<and> size' \<le> 2 ^ j \<longrightarrow> k \<le> j"
    using least by (meson not_le_imp_less)
  ultimately show "\<exists>k. orderFor size' = int k \<and> MIN_ORDER \<le> k \<and> k \<le> MAX_ORDER \<and>
      size' \<le> 2 ^ k \<and> (\<forall>j. MIN_ORDER \<le> j \<and> j \<le> MAX_ORDER \<and> size' \<le> 2 ^ j \<longrightarrow> k \<le> j)"
    using k unfolding orderFor_def by blast
next
  assume big: "2 ^ MAX_ORDER < size'"
  have "\<not> size' \<le> 2 ^ j" if "j \<le> MAX_ORDER" for j
  proof -
    have "(2::int) ^ j \<le> 2 ^ MAX_ORDER"
      using that by (simp add: power_increasing)
    with big show ?thesis by linarith
  qed
  then show "orderFor size' = - 1"
    unfolding orderFor_def orderFor_loop_fail by blast
qed

theorem orderFor_smallest_order_witness:
  "(1::int) \<le> 5000 \<and> (5000::int) \<le> 2 ^ MAX_ORDER \<and> orderFor 5000 = 13
   \<and> (2::int) ^ MAX_ORDER < 1048577 \<and> orderFor 1048577 = - 1"
proof -
  have a: "(1::int) \<le> 5000 \<and> (5000::int) \<le> 2 ^ MAX_ORDER" by (simp add: MAX_ORDER_def)
  have b: "(2::int) ^ MAX_ORDER < 1048577" by (simp add: MAX_ORDER_def)
  from orderFor_smallest_order[of 5000] a
  obtain k where k: "orderFor 5000 = int k" "MIN_ORDER \<le> k" "k \<le> MAX_ORDER" "(5000::int) \<le> 2 ^ k"
    "\<forall>j. MIN_ORDER \<le> j \<and> j \<le> MAX_ORDER \<and> (5000::int) \<le> 2 ^ j \<longrightarrow> k \<le> j"
    by blast
  have "k \<le> 13" using k(5) by (simp add: MIN_ORDER_def MAX_ORDER_def)
  moreover have "\<not> k \<le> 12"
  proof
    assume "k \<le> 12"
    then have "(2::int) ^ k \<le> 2 ^ 12" by (rule power_increasing) simp
    with k(4) show False by simp
  qed
  ultimately have "k = 13" by simp
  with k(1) have "orderFor 5000 = 13" by simp
  moreover from orderFor_smallest_order[of 1048577] b have "orderFor 1048577 = - 1" by blast
  ultimately show ?thesis using a b by blast
qed

subsection \<open>Blocks of a state\<close>

lemma mem_free_blocks:
  "((t, a, i) \<in> free_blocks s) =
     (t = Free \<and> MIN_ORDER \<le> i \<and> i \<le> MAX_ORDER \<and> (\<exists>p. a = PAGE_TO_ADDR p \<and> p \<in> set (free_area s i)))"
  by (auto simp: free_blocks_def)

lemma free_blocksI:
  "MIN_ORDER \<le> i \<Longrightarrow> i \<le> MAX_ORDER \<Longrightarrow> p \<in> set (free_area s i)
     \<Longrightarrow> (Free, PAGE_TO_ADDR p, i) \<in> free_blocks s"
  by (auto simp: free_blocks_def)

lemma mem_live_blocks:
  "((t, a, i) \<in> live_blocks s L) =
     (t = Live \<and> a \<in> L \<and> i = nat (order (g_pages s (ADDR_TO_PAGE a))))"
  by (auto simp: live_blocks_def)

lemma mem_hand_blocks: "((t, a, i) \<in> hand_blocks H) = (t = Hand \<and> (a, i) \<in> H)"
  by (auto simp: hand_blocks_def)

lemma mem_blocks:
  "((t, a, i) \<in> blocks s L H) =
     ((t = Live \<and> a \<in> L \<and> i = nat (order (g_pages s (ADDR_TO_PAGE a))))
      \<or> (t = Free \<and> MIN_ORDER \<le> i \<and> i \<le> MAX_ORDER \<and> (\<exists>p. a = PAGE_TO_ADDR p \<and> p \<in> set (free_area s i)))
      \<or> (t = Hand \<and> (a, i) \<in> H))"
  unfolding blocks_def Un_iff mem_live_blocks mem_free_blocks mem_hand_blocks by blast

lemma hand_blocks_empty [simp]: "hand_blocks {} = {}"
  by (simp add: hand_blocks_def)

lemma hand_blocks_single [simp]: "hand_blocks {(a, i)} = {(Hand, a, i)}"
  by (simp add: hand_blocks_def)

lemma free_blocks_cons:
  assumes "MIN_ORDER \<le> i" "i \<le> MAX_ORDER"
    and "free_area s' = (free_area s)(i := p # free_area s i)"
  shows "free_blocks s' = insert (Free, PAGE_TO_ADDR p, i) (free_blocks s)"
proof (rule set_eqI)
  fix b :: "owner \<times> nat \<times> nat"
  obtain t a j where b: "b = (t, a, j)" by (cases b) auto
  show "(b \<in> free_blocks s') = (b \<in> insert (Free, PAGE_TO_ADDR p, i) (free_blocks s))"
    unfolding b insert_iff mem_free_blocks assms(3) using assms(1,2)
    by (cases "j = i") auto
qed

lemma free_blocks_remove1:
  assumes "distinct (free_area s i)"
    and "free_area s' = (free_area s)(i := remove1 p (free_area s i))"
  shows "free_blocks s' = free_blocks s - {(Free, PAGE_TO_ADDR p, i)}"
proof (rule set_eqI)
  fix b :: "owner \<times> nat \<times> nat"
  obtain t a j where b: "b = (t, a, j)" by (cases b) auto
  show "(b \<in> free_blocks s') = (b \<in> free_blocks s - {(Free, PAGE_TO_ADDR p, i)})"
    unfolding b Diff_iff mem_free_blocks assms(2) using assms(1)
    by (cases "j = i") auto
qed

lemma live_blocks_cong:
  assumes "\<And>a. a \<in> L \<Longrightarrow> order (g_pages s' (ADDR_TO_PAGE a)) = order (g_pages s (ADDR_TO_PAGE a))"
  shows "live_blocks s' L = live_blocks s L"
  unfolding live_blocks_def using assms by (intro image_cong) auto

lemma buddy_invD:
  assumes "buddy_inv s L H"
  shows "pages_ok s" "links_ok s" "lists_distinct s" "free_order s" "owned_ok s L H"
    "null_ok s" "coalesced s" "geometry (blocks s L H)" "part (blocks s L H)"
  using assms by (simp_all add: buddy_inv_def)

lemma inv_block:
  assumes "buddy_inv s L H" "(t, a, i) \<in> blocks s L H"
  shows "MIN_ORDER \<le> i" "i \<le> MAX_ORDER" "2 ^ i dvd a" "a < 2 ^ MAX_ORDER"
    "PAGE_SIZE dvd a" "ADDR_TO_PAGE a < n_pages" "PAGE_TO_ADDR (ADDR_TO_PAGE a) = a"
    "a + 2 ^ i \<le> 2 ^ MAX_ORDER"
proof -
  from buddy_invD(8)[OF assms(1)] assms(2)
  show g: "MIN_ORDER \<le> i" "i \<le> MAX_ORDER" "2 ^ i dvd a" "a < 2 ^ MAX_ORDER"
    unfolding geometry_def by force+
  show p: "PAGE_SIZE dvd a" using g(1,3) by (rule pow_dvd_page)
  show "ADDR_TO_PAGE a < n_pages" using g(4) by (rule ADDR_TO_PAGE_less)
  show "PAGE_TO_ADDR (ADDR_TO_PAGE a) = a" using p by (rule PAGE_TO_ADDR_inverse)
  show "a + 2 ^ i \<le> 2 ^ MAX_ORDER" using g(3,4,2) by (rule aligned_top)
qed

lemma inv_no_overlap:
  assumes "buddy_inv s L H" "b \<in> blocks s L H" "c \<in> blocks s L H"
    and "x \<in> region b" "x \<in> region c"
  shows "b = c"
  using buddy_invD(9)[OF assms(1)] assms(2-5) by (rule part_overlap_eq)

lemma inv_mem:
  assumes "buddy_inv s L H" "p < n_pages"
  shows "mem (g_pages s p) = PAGE_TO_ADDR p"
  using buddy_invD(1)[OF assms(1)] assms(2) by (simp add: pages_ok_def)

lemma inv_linked:
  assumes "buddy_inv s L H"
  shows "(list (g_pages s p) = Linked i) = (MIN_ORDER \<le> i \<and> i \<le> MAX_ORDER \<and> p \<in> set (free_area s i))"
  using buddy_invD(2)[OF assms(1)] by (simp add: links_ok_def)

lemma inv_free_block:
  assumes "buddy_inv s L H" "list (g_pages s p) = Linked i"
  shows "(Free, PAGE_TO_ADDR p, i) \<in> blocks s L H"
  using assms unfolding inv_linked[OF assms(1)] mem_blocks by blast

subsection \<open>Unlinking a free block\<close>

lemma BUDDY_ADDR_page:
  assumes "MIN_ORDER \<le> k"
  shows "BUDDY_ADDR (PAGE_TO_ADDR q) k = PAGE_TO_ADDR (q XOR 2 ^ (k - MIN_ORDER))"
proof -
  have k: "(2::nat) ^ k = push_bit MIN_ORDER (2 ^ (k - MIN_ORDER))"
    using assms by (simp add: push_bit_eq_mult flip: power_add)
  have "BUDDY_ADDR (PAGE_TO_ADDR q) k = push_bit MIN_ORDER q XOR push_bit MIN_ORDER (2 ^ (k - MIN_ORDER))"
    unfolding BUDDY_ADDR_def PAGE_TO_ADDR_def PAGE_SIZE_def k[symmetric]
    by (simp add: push_bit_eq_mult)
  also have "\<dots> = push_bit MIN_ORDER (q XOR 2 ^ (k - MIN_ORDER))"
    by (simp only: push_bit_xor)
  finally show ?thesis by (simp add: PAGE_TO_ADDR_def PAGE_SIZE_def push_bit_eq_mult)
qed

lemma buddy_page_eq:
  "MIN_ORDER \<le> k \<Longrightarrow> ADDR_TO_PAGE (BUDDY_ADDR (PAGE_TO_ADDR q) k) = q XOR 2 ^ (k - MIN_ORDER)"
  by (simp add: BUDDY_ADDR_page)

lemma buddy_page_involution:
  assumes "MIN_ORDER \<le> k" "ADDR_TO_PAGE (BUDDY_ADDR (PAGE_TO_ADDR q) k) = p"
  shows "ADDR_TO_PAGE (BUDDY_ADDR (PAGE_TO_ADDR p) k) = q"
  using assms(2) unfolding buddy_page_eq[OF assms(1)] by (auto simp: xor_pow_involution)

lemma unlink_state:
  assumes inv: "buddy_inv s L H" and lk: "list (g_pages s p) = Linked i"
  defines "s1 \<equiv> set_list (s\<lparr>free_area := (free_area s)(i := remove1 p (free_area s i))\<rparr>) p Self_linked"
  shows "list_del_init s p = Some s1"
    and "free_area s1 = (free_area s)(i := remove1 p (free_area s i))"
    and "g_pages s1 q = (if q = p then (g_pages s p)\<lparr>list := Self_linked\<rparr> else g_pages s q)"
    and "pages_ok s1" "links_ok s1" "lists_distinct s1" "free_order s1" "null_ok s1" "coalesced s1"
    and "free_blocks s1 = free_blocks s - {(Free, PAGE_TO_ADDR p, i)}"
    and "live_blocks s1 L' = live_blocks s L'"
proof -
  note d = buddy_invD[OF inv]
  have mem_i: "MIN_ORDER \<le> i" "i \<le> MAX_ORDER" "p \<in> set (free_area s i)"
    using lk unfolding inv_linked[OF inv] by simp_all
  have dist: "distinct (free_area s j)" for j using d(3) by (simp add: lists_distinct_def)
  show "list_del_init s p = Some s1" by (simp add: list_del_init_def lk s1_def)
  show fa: "free_area s1 = (free_area s)(i := remove1 p (free_area s i))" by (simp add: s1_def)
  show gp: "g_pages s1 q = (if q = p then (g_pages s p)\<lparr>list := Self_linked\<rparr> else g_pages s q)" for q
    by (simp add: s1_def g_pages_set_list)
  have sub: "set (free_area s1 j) \<subseteq> set (free_area s j)" for j
    unfolding fa using set_remove1_subset[of p "free_area s i"] by auto
  have ord: "order (g_pages s1 q) = order (g_pages s q)" for q by (simp add: gp)
  show "pages_ok s1" using d(1) by (simp add: pages_ok_def gp)
  show "links_ok s1"
    unfolding links_ok_def
  proof (intro allI)
    fix q j
    show "(list (g_pages s1 q) = Linked j) = (MIN_ORDER \<le> j \<and> j \<le> MAX_ORDER \<and> q \<in> set (free_area s1 j))"
    proof (cases "q = p")
      case True
      have "\<not> (MIN_ORDER \<le> j \<and> j \<le> MAX_ORDER \<and> p \<in> set (free_area s1 j))"
      proof (cases "j = i")
        case True then show ?thesis using dist[of i] by (simp add: fa)
      next
        case False
        have "list (g_pages s p) \<noteq> Linked j" using lk False by simp
        then have "\<not> (MIN_ORDER \<le> j \<and> j \<le> MAX_ORDER \<and> p \<in> set (free_area s j))"
          unfolding inv_linked[OF inv] .
        then show ?thesis using False by (simp add: fa)
      qed
      then show ?thesis using True by (simp add: gp)
    next
      case False
      have "(q \<in> set (free_area s1 j)) = (q \<in> set (free_area s j))"
        using False by (cases "j = i") (simp_all add: fa)
      then show ?thesis using False by (simp add: gp inv_linked[OF inv])
    qed
  qed
  show "lists_distinct s1" using dist by (simp add: lists_distinct_def fa)
  show "free_order s1" using d(4) sub unfolding free_order_def ord by blast
  show "null_ok s1" using d(6) unfolding null_ok_def by (simp add: gp)
  show "coalesced s1" using d(7) sub unfolding coalesced_def by blast
  show "free_blocks s1 = free_blocks s - {(Free, PAGE_TO_ADDR p, i)}"
    using dist[of i] fa by (rule free_blocks_remove1)
  show "live_blocks s1 L' = live_blocks s L'" by (rule live_blocks_cong) (simp add: ord)
qed

subsection \<open>Linking a block into a free list\<close>

lemma xor_pow_neq: "(p::nat) XOR 2 ^ n \<noteq> p"
proof
  assume "p XOR 2 ^ n = p"
  then have "p XOR (p XOR 2 ^ n) = p XOR p" by simp
  then have "(2::nat) ^ n = 0" by (simp flip: xor.assoc)
  then show False by simp
qed

lemma buddy_page_neq:
  "MIN_ORDER \<le> k \<Longrightarrow> ADDR_TO_PAGE (BUDDY_ADDR (PAGE_TO_ADDR p) k) \<noteq> p"
  by (simp add: buddy_page_eq xor_pow_neq)

lemma link_state:
  assumes inv: "buddy_inv s L H" and nl: "\<And>j. list (g_pages s p) \<noteq> Linked j"
    and k: "MIN_ORDER \<le> k" "k \<le> MAX_ORDER"
    and nb: "k < MAX_ORDER \<longrightarrow> ADDR_TO_PAGE (BUDDY_ADDR (PAGE_TO_ADDR p) k) \<notin> set (free_area s k)"
  defines "s' \<equiv> set_list ((set_order s p (int k))\<lparr>free_area := (free_area s)(k := p # free_area s k)\<rparr>)
                   p (Linked k)"
  shows "list_add (set_order s p (int k)) p k = Some s'"
    and "free_area s' = (free_area s)(k := p # free_area s k)"
    and "g_pages s' q = (if q = p then (g_pages s p)\<lparr>order := int k, list := Linked k\<rparr> else g_pages s q)"
    and "pages_ok s'" "links_ok s'" "lists_distinct s'" "free_order s'" "null_ok s'" "coalesced s'"
    and "free_blocks s' = insert (Free, PAGE_TO_ADDR p, k) (free_blocks s)"
    and "(\<And>a. a \<in> L' \<Longrightarrow> ADDR_TO_PAGE a \<noteq> p) \<Longrightarrow> live_blocks s' L' = live_blocks s L'"
proof -
  note d = buddy_invD[OF inv]
  have notin: "\<not> (MIN_ORDER \<le> j \<and> j \<le> MAX_ORDER \<and> p \<in> set (free_area s j))" for j
    using nl[of j] unfolding inv_linked[OF inv] .
  have dist: "distinct (free_area s j)" for j using d(3) by (simp add: lists_distinct_def)
  have "list (g_pages (set_order s p (int k)) p) = list (g_pages s p)"
    by (simp add: g_pages_set_order)
  with k show "list_add (set_order s p (int k)) p k = Some s'"
    using nl by (cases "list (g_pages s p)") (auto simp add: list_add_def s'_def)
  show fa: "free_area s' = (free_area s)(k := p # free_area s k)" by (simp add: s'_def)
  show gp: "g_pages s' q = (if q = p then (g_pages s p)\<lparr>order := int k, list := Linked k\<rparr> else g_pages s q)" for q
    by (simp add: s'_def set_list_def set_order_def)
  show "pages_ok s'" using d(1) by (simp add: pages_ok_def gp)
  show "links_ok s'"
    unfolding links_ok_def
  proof (intro allI)
    fix q j
    show "(list (g_pages s' q) = Linked j) = (MIN_ORDER \<le> j \<and> j \<le> MAX_ORDER \<and> q \<in> set (free_area s' j))"
    proof (cases "q = p")
      case True
      show ?thesis
      proof (cases "j = k")
        case True then show ?thesis using \<open>q = p\<close> k by (simp add: gp fa)
      next
        case False then show ?thesis using \<open>q = p\<close> notin[of j] by (simp add: gp fa)
      qed
    next
      case False
      have "(q \<in> set (free_area s' j)) = (q \<in> set (free_area s j))"
        using False by (cases "j = k") (simp_all add: fa)
      then show ?thesis using False by (simp add: gp inv_linked[OF inv])
    qed
  qed
  show "lists_distinct s'"
    unfolding lists_distinct_def
  proof
    fix j show "distinct (free_area s' j)"
      using dist[of j] notin[of k] k by (cases "j = k") (simp_all add: fa)
  qed
  show "free_order s'"
    unfolding free_order_def
  proof (intro allI impI)
    fix j q assume a: "MIN_ORDER \<le> j \<and> j < MAX_ORDER \<and> q \<in> set (free_area s' j)"
    show "order (g_pages s' q) = int j"
    proof (cases "q = p")
      case True
      have "j = k" using a notin[of j] True by (cases "j = k") (simp_all add: fa)
      then show ?thesis using True by (simp add: gp)
    next
      case False
      then have "q \<in> set (free_area s j)" using a by (cases "j = k") (simp_all add: fa)
      then show ?thesis using d(4) a False unfolding free_order_def by (simp add: gp)
    qed
  qed
  show "null_ok s'" using d(6) unfolding null_ok_def by (simp add: gp)
  show "coalesced s'"
    unfolding coalesced_def
  proof (intro allI impI)
    fix j q assume a: "MIN_ORDER \<le> j \<and> j < MAX_ORDER \<and> q \<in> set (free_area s' j)"
    let ?b = "ADDR_TO_PAGE (BUDDY_ADDR (PAGE_TO_ADDR q) j)"
    show "?b \<notin> set (free_area s' j)"
    proof (cases "j = k")
      case False
      then show ?thesis using d(7) a unfolding coalesced_def by (simp add: fa)
    next
      case True
      have kk: "k < MAX_ORDER" using a True by simp
      show ?thesis
      proof (cases "q = p")
        case True
        then show ?thesis using nb[rule_format, OF kk] buddy_page_neq[OF k(1), of p] \<open>j = k\<close> by (simp add: fa)
      next
        case False
        then have q: "q \<in> set (free_area s k)" using a True by (simp add: fa)
        then have "?b \<notin> set (free_area s k)" using d(7) a True unfolding coalesced_def by blast
        moreover have "?b \<noteq> p"
        proof
          assume "?b = p"
          then have "ADDR_TO_PAGE (BUDDY_ADDR (PAGE_TO_ADDR p) k) = q"
            using buddy_page_involution[OF k(1), of q p] True by simp
          then show False using nb[rule_format, OF kk] q by simp
        qed
        ultimately show ?thesis using True by (simp add: fa)
      qed
    qed
  qed
  show "free_blocks s' = insert (Free, PAGE_TO_ADDR p, k) (free_blocks s)"
    using k fa by (rule free_blocks_cons)
  show "live_blocks s' L' = live_blocks s L'" if "\<And>a. a \<in> L' \<Longrightarrow> ADDR_TO_PAGE a \<noteq> p"
    by (rule live_blocks_cong) (simp add: gp that)
qed

subsection \<open>Blocks changing hands\<close>

lemma geometry_insert:
  "geometry B \<Longrightarrow> MIN_ORDER \<le> i \<Longrightarrow> i \<le> MAX_ORDER \<Longrightarrow> 2 ^ i dvd a \<Longrightarrow> a < 2 ^ MAX_ORDER
     \<Longrightarrow> geometry (insert (t, a, i) B)"
  by (simp add: geometry_def)

lemma geometry_subset: "geometry B \<Longrightarrow> A \<subseteq> B \<Longrightarrow> geometry A"
  unfolding geometry_def by blast

lemma region_tag: "region (t, a, i) = region (t', a, i)"
  by (simp add: region_eq)

lemma retag_inv_parts:
  assumes inv: "buddy_inv s L H" and b: "(t, a, i) \<in> blocks s L H"
    and B': "B' = insert (t', a, i) (blocks s L H - {(t, a, i)})"
  shows "geometry B'" "part B'"
proof -
  note blk = inv_block[OF inv b]
  have "geometry (blocks s L H - {(t, a, i)})"
    using buddy_invD(8)[OF inv] by (rule geometry_subset) blast
  then show "geometry B'" unfolding B' using blk(1-4) by (rule geometry_insert)
  show "part B'" unfolding B'
    using buddy_invD(9)[OF inv] b region_tag by (rule part_retag)
qed

lemma tag_notin [simp]:
  "(Free, a, i) \<notin> live_blocks s L" "(Hand, a, i) \<notin> live_blocks s L"
  "(Live, a, i) \<notin> free_blocks s" "(Hand, a, i) \<notin> free_blocks s"
  by (simp_all add: mem_live_blocks mem_free_blocks)

lemma live_in_blocks:
  "a \<in> L \<Longrightarrow> (Live, a, nat (order (g_pages s (ADDR_TO_PAGE a)))) \<in> blocks s L H"
  unfolding blocks_def live_blocks_def by blast

lemma hand_in_blocks: "(a, i) \<in> H \<Longrightarrow> (Hand, a, i) \<in> blocks s L H"
  unfolding blocks_def hand_blocks_def by force

lemma live_not_overlapped:
  assumes inv: "buddy_inv s L H" and b: "(t, a, i) \<in> blocks s L H" and t: "t \<noteq> Live"
    and x: "x \<in> L" "x \<in> region (t, a, i)"
  shows False
proof -
  let ?c = "(Live, x, nat (order (g_pages s (ADDR_TO_PAGE x))))"
  have c: "?c \<in> blocks s L H" using x(1) by (rule live_in_blocks)
  have "x \<in> region ?c" using base_in_region[of ?c] by simp
  with inv b c x(2) have "(t, a, i) = ?c" by (rule inv_no_overlap)
  with t show False by simp
qed

lemma free_not_overlapped:
  assumes inv: "buddy_inv s L H" and b: "(t, a, i) \<in> blocks s L H" and t: "t \<noteq> Free"
    and x: "list (g_pages s p) = Linked j" "PAGE_TO_ADDR p \<in> region (t, a, i)"
  shows False
proof -
  let ?c = "(Free, PAGE_TO_ADDR p, j)"
  have c: "?c \<in> blocks s L H" using inv x(1) by (rule inv_free_block)
  have "PAGE_TO_ADDR p \<in> region ?c" using base_in_region[of ?c] by simp
  with inv b c x(2) have "(t, a, i) = ?c" by (rule inv_no_overlap)
  with t show False by simp
qed

lemma live_pages_distinct:
  assumes inv: "buddy_inv s L H" and "x \<in> L" "y \<in> L" "ADDR_TO_PAGE x = ADDR_TO_PAGE y"
  shows "x = y"
proof -
  have "(Live, x, nat (order (g_pages s (ADDR_TO_PAGE x)))) \<in> blocks s L H"
    "(Live, y, nat (order (g_pages s (ADDR_TO_PAGE y)))) \<in> blocks s L H"
    using live_in_blocks[OF assms(2)] live_in_blocks[OF assms(3)] by blast+
  from inv_block(7)[OF inv this(1)] inv_block(7)[OF inv this(2)] assms(4)
  show ?thesis by metis
qed

lemma take_step:
  assumes inv: "buddy_inv s L {}" and i: "MIN_ORDER \<le> i" "i \<le> MAX_ORDER"
    and p: "p \<in> set (free_area s i)"
  shows "\<exists>s1. list_del_init s p = Some s1 \<and> buddy_inv s1 L {(PAGE_TO_ADDR p, i)}
          \<and> free_area s1 = (free_area s)(i := remove1 p (free_area s i))
          \<and> (\<forall>q. g_pages s1 q = (if q = p then (g_pages s p)\<lparr>list := Self_linked\<rparr> else g_pages s q))"
proof -
  have lk: "list (g_pages s p) = Linked i" using i p by (simp add: inv_linked[OF inv])
  define s1 where "s1 = set_list (s\<lparr>free_area := (free_area s)(i := remove1 p (free_area s i))\<rparr>) p Self_linked"
  note u = unlink_state[OF inv lk, folded s1_def]
  have fb: "(Free, PAGE_TO_ADDR p, i) \<in> blocks s L {}" using inv lk by (rule inv_free_block)
  have B: "blocks s1 L {(PAGE_TO_ADDR p, i)}
             = insert (Hand, PAGE_TO_ADDR p, i) (blocks s L {} - {(Free, PAGE_TO_ADDR p, i)})"
  proof -
    have "(Free, PAGE_TO_ADDR p, i) \<notin> live_blocks s L" by simp
    then show ?thesis unfolding blocks_def u(10) u(11) hand_blocks_single hand_blocks_empty
      by blast
  qed
  have "owned_ok s1 L {(PAGE_TO_ADDR p, i)}"
    using buddy_invD(5)[OF inv] unfolding owned_ok_def by (simp add: u(3))
  with u retag_inv_parts[OF inv fb B] have "buddy_inv s1 L {(PAGE_TO_ADDR p, i)}"
    by (simp add: buddy_inv_def)
  with u(1,2,3) show ?thesis by blast
qed

lemma release_step:
  assumes inv: "buddy_inv s L {}" and a: "a \<in> L"
  shows "buddy_inv s (L - {a}) {(a, nat (order (g_pages s (ADDR_TO_PAGE a))))}"
proof -
  let ?k = "nat (order (g_pages s (ADDR_TO_PAGE a)))"
  have lb: "(Live, a, ?k) \<in> blocks s L {}" using a by (rule live_in_blocks)
  have B: "blocks s (L - {a}) {(a, ?k)} = insert (Hand, a, ?k) (blocks s L {} - {(Live, a, ?k)})"
  proof -
    have "live_blocks s (L - {a}) = live_blocks s L - {(Live, a, ?k)}"
      unfolding live_blocks_def by auto
    moreover have "(Live, a, ?k) \<notin> free_blocks s" by simp
    ultimately show ?thesis unfolding blocks_def hand_blocks_single hand_blocks_empty
      by blast
  qed
  have "owned_ok s (L - {a}) {(a, ?k)}"
    using buddy_invD(5)[OF inv] a unfolding owned_ok_def by simp
  with buddy_invD[OF inv] retag_inv_parts[OF inv lb B] show ?thesis
    by (simp add: buddy_inv_def)
qed

lemma give_step:
  assumes inv: "buddy_inv s L {(a, i)}"
  shows "a \<notin> L" "buddy_inv (set_order s (ADDR_TO_PAGE a) (int i)) (insert a L) {}"
proof -
  let ?s = "set_order s (ADDR_TO_PAGE a) (int i)"
  have hb: "(Hand, a, i) \<in> blocks s L {(a, i)}" by (rule hand_in_blocks) simp
  show nin: "a \<notin> L"
    using live_not_overlapped[OF inv hb _ _ base_in_region[of "(Hand, a, i)", simplified]] by auto
  note d = buddy_invD[OF inv]
  have self: "list (g_pages s (ADDR_TO_PAGE a)) = Self_linked"
    using d(5) by (simp add: owned_ok_def)
  have gp: "g_pages ?s q = (if q = ADDR_TO_PAGE a then (g_pages s q)\<lparr>order := int i\<rparr> else g_pages s q)" for q
    by (simp add: g_pages_set_order)
  have notin: "ADDR_TO_PAGE a \<notin> set (free_area s j)" if "MIN_ORDER \<le> j" "j \<le> MAX_ORDER" for j
    using inv_linked[OF inv, of "ADDR_TO_PAGE a" j] self that by simp
  have other: "ADDR_TO_PAGE x \<noteq> ADDR_TO_PAGE a" if "x \<in> L" for x
  proof
    assume e: "ADDR_TO_PAGE x = ADDR_TO_PAGE a"
    have "(Live, x, nat (order (g_pages s (ADDR_TO_PAGE x)))) \<in> blocks s L {(a, i)}"
      using that by (rule live_in_blocks)
    from inv_block(7)[OF inv this] inv_block(7)[OF inv hb] e have "x = a" by metis
    with that nin show False by simp
  qed
  have "pages_ok ?s" using d(1) by (simp add: pages_ok_def gp)
  moreover have "links_ok ?s" using d(2) by (simp add: links_ok_def gp)
  moreover have "lists_distinct ?s" using d(3) by (simp add: lists_distinct_def)
  moreover have "free_order ?s"
    using d(4) notin unfolding free_order_def by (auto simp: gp)
  moreover have "owned_ok ?s (insert a L) {}"
    using d(5) by (simp add: owned_ok_def gp)
  moreover have "null_ok ?s" using d(6) self by (simp add: null_ok_def gp)
  moreover have "coalesced ?s" using d(7) by (simp add: coalesced_def)
  moreover have B: "blocks ?s (insert a L) {} = insert (Live, a, i) (blocks s L {(a, i)} - {(Hand, a, i)})"
  proof -
    have "live_blocks ?s L = live_blocks s L"
      by (rule live_blocks_cong) (simp add: gp other)
    moreover have "live_blocks ?s (insert a L) = insert (Live, a, i) (live_blocks ?s L)"
      by (simp add: live_blocks_def gp)
    moreover have "free_blocks ?s = free_blocks s" by (simp add: free_blocks_def)
    moreover have "(Hand, a, i) \<notin> live_blocks s L" "(Hand, a, i) \<notin> free_blocks s" by simp_all
    ultimately show ?thesis
      unfolding blocks_def hand_blocks_single hand_blocks_empty by blast
  qed
  ultimately show "buddy_inv ?s (insert a L) {}"
    using retag_inv_parts[OF inv hb B] by (simp add: buddy_inv_def)
qed

subsection \<open>Splitting the block in hand\<close>

lemma half_lt: "(0::nat) < x \<Longrightarrow> a + 2 * x \<le> n \<Longrightarrow> a + x < n"
  by arith

lemma split_step:
  assumes inv: "buddy_inv s L {(a, Suc k)}" and k: "MIN_ORDER \<le> k"
  defines "b \<equiv> ADDR_TO_PAGE (BUDDY_ADDR a k)"
  shows "b < n_pages" "PAGE_TO_ADDR b = a + 2 ^ k"
    and "\<exists>s'. list_add (set_order s b (int k)) b k = Some s' \<and> buddy_inv s' L {(a, k)}
           \<and> free_area s' = (free_area s)(k := b # free_area s k)
           \<and> (\<forall>q. g_pages s' q = (if q = b then (g_pages s b)\<lparr>order := int k, list := Linked k\<rparr>
                                     else g_pages s q))"
proof -
  have hb: "(Hand, a, Suc k) \<in> blocks s L {(a, Suc k)}" by (rule hand_in_blocks) simp
  note blk = inv_block[OF inv hb]
  note d = buddy_invD[OF inv]
  have kM: "k \<le> MAX_ORDER" "k < MAX_ORDER" using blk(2) by simp_all
  have ba: "BUDDY_ADDR a k = a + 2 ^ k" unfolding BUDDY_ADDR_def using blk(3) by (rule xor_pow_aligned)
  have "(2::nat) ^ k dvd 2 ^ Suc k" by simp
  then have dk: "2 ^ k dvd a" using blk(3) by (rule dvd_trans)
  then have dk': "2 ^ k dvd a + 2 ^ k" by simp
  have pg: "PAGE_SIZE dvd a + 2 ^ k" using k dk' by (rule pow_dvd_page)
  show pb: "PAGE_TO_ADDR b = a + 2 ^ k" unfolding b_def ba using pg by (rule PAGE_TO_ADDR_inverse)
  have lt: "a + 2 ^ k < 2 ^ MAX_ORDER" using blk(8) by (intro half_lt) simp_all
  show bn: "b < n_pages" unfolding b_def ba using lt by (rule ADDR_TO_PAGE_less)
  have inr: "PAGE_TO_ADDR b \<in> region (Hand, a, Suc k)" unfolding pb by (simp add: region_eq)
  have nl: "list (g_pages s b) \<noteq> Linked j" for j
    using free_not_overlapped[OF inv hb _ _ inr] by blast
  have nL: "a + 2 ^ k \<notin> L"
    using live_not_overlapped[OF inv hb _ _ inr[unfolded pb]] by blast
  have pa: "PAGE_TO_ADDR (ADDR_TO_PAGE a) = a" by (rule blk(7))
  have self: "list (g_pages s (ADDR_TO_PAGE a)) = Self_linked"
    using d(5) by (simp add: owned_ok_def)
  have bud: "ADDR_TO_PAGE (BUDDY_ADDR (PAGE_TO_ADDR b) k) = ADDR_TO_PAGE a"
    unfolding pb ba[symmetric] BUDDY_ADDR_def xor_pow_involution ..
  have nb: "k < MAX_ORDER \<longrightarrow> ADDR_TO_PAGE (BUDDY_ADDR (PAGE_TO_ADDR b) k) \<notin> set (free_area s k)"
    unfolding bud using inv_linked[OF inv, of "ADDR_TO_PAGE a" k] self k kM(1) by simp
  define s' where "s' = set_list ((set_order s b (int k))\<lparr>free_area := (free_area s)(k := b # free_area s k)\<rparr>)
                   b (Linked k)"
  note l = link_state[OF inv nl k kM(1) nb, folded s'_def]
  have ne: "ADDR_TO_PAGE a \<noteq> b" using pa pb by (metis add_cancel_right_right power_not_zero zero_neq_numeral)
  have oth: "ADDR_TO_PAGE x \<noteq> b" if "x \<in> L" for x
  proof
    assume e: "ADDR_TO_PAGE x = b"
    from inv_block(7)[OF inv live_in_blocks[OF that]] e pb have "x = a + 2 ^ k" by metis
    with that nL show False by simp
  qed
  have lv: "live_blocks s' L = live_blocks s L" using oth by (rule l(11))
  have B: "blocks s' L {(a, k)}
             = insert (Hand, a, k) (insert (Free, a + 2 ^ k, k) (blocks s L {(a, Suc k)} - {(Hand, a, Suc k)}))"
  proof -
    have "(Hand, a, Suc k) \<notin> live_blocks s L" "(Hand, a, Suc k) \<notin> free_blocks s" by simp_all
    then show ?thesis
      unfolding blocks_def lv l(10) pb hand_blocks_single by blast
  qed
  have "geometry (blocks s L {(a, Suc k)} - {(Hand, a, Suc k)})"
    using d(8) by (rule geometry_subset) blast
  then have "geometry (insert (Free, a + 2 ^ k, k) (blocks s L {(a, Suc k)} - {(Hand, a, Suc k)}))"
    using k kM(1) dk' lt by (rule geometry_insert)
  then have g: "geometry (blocks s' L {(a, k)})"
    unfolding B using k kM(1) dk blk(4) by (rule geometry_insert)
  have p: "part (blocks s' L {(a, k)})"
    unfolding B using d(9) hb
  proof (rule part_split)
    show "region (Hand, a, k) \<union> region (Free, a + 2 ^ k, k) = region (Hand, a, Suc k)"
      by (rule region_halves(1)[symmetric])
    show "region (Hand, a, k) \<inter> region (Free, a + 2 ^ k, k) = {}"
      by (rule region_halves(2))
  qed
  have "owned_ok s' L {(a, k)}"
    using d(5) oth ne unfolding owned_ok_def by (simp add: l(3))
  with l g p have "buddy_inv s' L {(a, k)}" by (simp add: buddy_inv_def)
  with l(1,2,3) show "\<exists>s'. list_add (set_order s b (int k)) b k = Some s' \<and> buddy_inv s' L {(a, k)}
           \<and> free_area s' = (free_area s)(k := b # free_area s k)
           \<and> (\<forall>q. g_pages s' q = (if q = b then (g_pages s b)\<lparr>order := int k, list := Linked k\<rparr>
                                     else g_pages s q))"
    by blast
qed

subsection \<open>Geometry of a block and its buddy\<close>

lemma sub_lt: "(0::nat) < x \<Longrightarrow> x \<le> a \<Longrightarrow> a - x < a"
  by arith

lemma buddy_geometry:
  assumes inv: "buddy_inv s L {(a, k)}" and kM: "k < MAX_ORDER"
  defines "a' \<equiv> BUDDY_ADDR a k"
  shows "ADDR_TO_PAGE a' < n_pages" "PAGE_TO_ADDR (ADDR_TO_PAGE a') = a'" "2 ^ k dvd a'"
    "a' < 2 ^ MAX_ORDER" "2 ^ Suc k dvd min a a'"
    "region (t, min a a', Suc k) = region (t1, a, k) \<union> region (t2, a', k)"
    "(ADDR_TO_PAGE a' < ADDR_TO_PAGE a) = (a' < a)"
    "ADDR_TO_PAGE (min a a') = (if ADDR_TO_PAGE a' < ADDR_TO_PAGE a then ADDR_TO_PAGE a' else ADDR_TO_PAGE a)"
proof -
  have hb: "(Hand, a, k) \<in> blocks s L {(a, k)}" by (rule hand_in_blocks) simp
  note blk = inv_block[OF inv hb]
  have lo: "2 ^ k dvd a' \<and> a' < 2 ^ MAX_ORDER \<and> 2 ^ Suc k dvd min a a' \<and> (a' = min a a' + 2 ^ k \<or> a = min a a' + 2 ^ k)
            \<and> (a' = min a a' \<or> a = min a a') \<and> a' \<noteq> a"
  proof (cases "2 ^ Suc k dvd a")
    case True
    have e: "a' = a + 2 ^ k" unfolding a'_def BUDDY_ADDR_def using True by (rule xor_pow_aligned)
    have "a + 2 ^ Suc k \<le> 2 ^ MAX_ORDER" using True blk(4) kM by (intro aligned_top) simp_all
    then have f2: "a' < 2 ^ MAX_ORDER" unfolding e by (intro half_lt) simp_all
    have f1: "2 ^ k dvd a'" unfolding e using blk(3) by simp
    have lt: "a < a'" unfolding e by simp
    then have m: "min a a' = a" by simp
    have f5: "a' \<noteq> a" using lt by simp
    show ?thesis unfolding m using f1 f2 True e f5 by blast
  next
    case False
    from xor_pow_unaligned[OF blk(3) False]
    have e: "2 ^ k \<le> a" "a' = a - 2 ^ k" "2 ^ Suc k dvd a - 2 ^ k"
      unfolding a'_def BUDDY_ADDR_def by simp_all
    have "(2::nat) ^ k dvd 2 ^ Suc k" by simp
    then have f1: "2 ^ k dvd a'" using e(3) unfolding e(2) by (rule dvd_trans)
    have lt: "a' < a" unfolding e(2) using e(1) by (intro sub_lt) simp_all
    then have m: "min a a' = a'" by simp
    have f2: "a' < 2 ^ MAX_ORDER" using lt blk(4) by simp
    have f3: "2 ^ Suc k dvd a'" using e(3) unfolding e(2) .
    have f4: "a = a' + 2 ^ k" unfolding e(2) using e(1) by simp
    have f5: "a' \<noteq> a" using lt by simp
    show ?thesis unfolding m using f1 f2 f3 f4 f5 by blast
  qed
  then show g: "2 ^ k dvd a'" "a' < 2 ^ MAX_ORDER" "2 ^ Suc k dvd min a a'" by simp_all
  have pg: "PAGE_SIZE dvd a'" using blk(1) g(1) by (rule pow_dvd_page)
  show "ADDR_TO_PAGE a' < n_pages" using g(2) by (rule ADDR_TO_PAGE_less)
  show pa': "PAGE_TO_ADDR (ADDR_TO_PAGE a') = a'" using pg by (rule PAGE_TO_ADDR_inverse)
  show "region (t, min a a', Suc k) = region (t1, a, k) \<union> region (t2, a', k)"
  proof -
    from lo consider "a = min a a'" "a' = min a a' + 2 ^ k" | "a' = min a a'" "a = min a a' + 2 ^ k"
      by (metis add_cancel_right_right power_not_zero zero_neq_numeral)
    then show ?thesis
    proof cases
      case 1
      show ?thesis using region_halves(1)[of t "min a a'" k t1 t2] 1 by metis
    next
      case 2
      show ?thesis using region_halves(1)[of t "min a a'" k t2 t1] 2 by (metis Un_commute)
    qed
  qed
  have mono: "(ADDR_TO_PAGE a' < ADDR_TO_PAGE a) = (a' < a)"
  proof -
    have "(PAGE_TO_ADDR (ADDR_TO_PAGE a') < PAGE_TO_ADDR (ADDR_TO_PAGE a)) = (ADDR_TO_PAGE a' < ADDR_TO_PAGE a)"
      by (simp add: PAGE_TO_ADDR_def PAGE_SIZE_eq)
    then show ?thesis unfolding pa' blk(7) by simp
  qed
  then show "(ADDR_TO_PAGE a' < ADDR_TO_PAGE a) = (a' < a)" .
  show "ADDR_TO_PAGE (min a a') = (if ADDR_TO_PAGE a' < ADDR_TO_PAGE a then ADDR_TO_PAGE a' else ADDR_TO_PAGE a)"
    unfolding mono by (simp add: min_def)
qed

subsection \<open>Merging and finishing a release\<close>

lemma merge_cond:
  assumes inv: "buddy_inv s L {(a, k)}" and kM: "k < MAX_ORDER"
  defines "b \<equiv> ADDR_TO_PAGE (BUDDY_ADDR a k)"
  shows "(order (g_pages s b) = int k \<and> \<not> list_empty_node s b) = (b \<in> set (free_area s k))"
    and "b \<in> set (free_area s k) \<Longrightarrow> list (g_pages s b) = Linked k"
proof -
  have hb: "(Hand, a, k) \<in> blocks s L {(a, k)}" by (rule hand_in_blocks) simp
  note blk = inv_block[OF inv hb]
  note d = buddy_invD[OF inv]
  note bg = buddy_geometry[OF inv kM, folded b_def]
  show lk: "list (g_pages s b) = Linked k" if "b \<in> set (free_area s k)"
    using that blk(1,2) by (simp add: inv_linked[OF inv])
  show "(order (g_pages s b) = int k \<and> \<not> list_empty_node s b) = (b \<in> set (free_area s k))"
  proof
    assume m: "b \<in> set (free_area s k)"
    have "order (g_pages s b) = int k" using d(4) blk(1) kM m unfolding free_order_def by blast
    then show "order (g_pages s b) = int k \<and> \<not> list_empty_node s b"
      using lk[OF m] by (simp add: list_empty_node_def)
  next
    assume c: "order (g_pages s b) = int k \<and> \<not> list_empty_node s b"
    show "b \<in> set (free_area s k)"
    proof (cases "list (g_pages s b)")
      case Null_links
      then have "order (g_pages s b) = - 1" using d(6) by (simp add: null_ok_def)
      with c show ?thesis by simp
    next
      case Self_linked
      with c show ?thesis by (simp add: list_empty_node_def)
    next
      case (Linked j)
      then have j: "MIN_ORDER \<le> j" "j \<le> MAX_ORDER" "b \<in> set (free_area s j)"
        by (simp_all add: inv_linked[OF inv])
      show ?thesis
      proof (cases "j < MAX_ORDER")
        case True
        then have "order (g_pages s b) = int j" using d(4) j unfolding free_order_def by blast
        with c have "j = k" by simp
        with j(3) show ?thesis by simp
      next
        case False
        then have jM: "j = MAX_ORDER" using j(2) by simp
        have fb: "(Free, PAGE_TO_ADDR b, j) \<in> blocks s L {(a, k)}" using inv Linked by (rule inv_free_block)
        note fblk = inv_block[OF inv fb]
        have "PAGE_TO_ADDR b = 0"
        proof (rule ccontr)
          assume "PAGE_TO_ADDR b \<noteq> 0"
          then have "2 ^ j \<le> PAGE_TO_ADDR b" using fblk(3) by (auto dest: dvd_imp_le)
          with fblk(4) jM show False by simp
        qed
        then have "a \<in> region (Free, PAGE_TO_ADDR b, j)"
          using blk(4) jM by (simp add: region_eq)
        moreover have "a \<in> region (Hand, a, k)" by (simp add: region_eq)
        ultimately have "(Free, PAGE_TO_ADDR b, j) = (Hand, a, k)"
          using inv fb hb by (intro inv_no_overlap)
        then show ?thesis by simp
      qed
    qed
  qed
qed

lemma merge_step:
  assumes inv: "buddy_inv s L {(a, k)}" and kM: "k < MAX_ORDER"
  defines "b \<equiv> ADDR_TO_PAGE (BUDDY_ADDR a k)"
  assumes m: "b \<in> set (free_area s k)"
  shows "\<exists>s1. list_del_init s b = Some s1 \<and> buddy_inv s1 L {(min a (BUDDY_ADDR a k), Suc k)}
          \<and> free_area s1 = (free_area s)(k := remove1 b (free_area s k))
          \<and> (\<forall>q. g_pages s1 q = (if q = b then (g_pages s b)\<lparr>list := Self_linked\<rparr> else g_pages s q))"
proof -
  let ?a' = "BUDDY_ADDR a k"
  let ?lo = "min a ?a'"
  have hb: "(Hand, a, k) \<in> blocks s L {(a, k)}" by (rule hand_in_blocks) simp
  note blk = inv_block[OF inv hb]
  note d = buddy_invD[OF inv]
  note bg = buddy_geometry[OF inv kM, folded b_def]
  have lk: "list (g_pages s b) = Linked k" using m unfolding b_def by (rule merge_cond(2)[OF inv kM])
  define s1 where "s1 = set_list (s\<lparr>free_area := (free_area s)(k := remove1 b (free_area s k))\<rparr>) b Self_linked"
  note u = unlink_state[OF inv lk, folded s1_def]
  have fb: "(Free, ?a', k) \<in> blocks s L {(a, k)}"
    using inv_free_block[OF inv lk] unfolding bg(2) .
  have B: "blocks s1 L {(?lo, Suc k)}
             = insert (Hand, ?lo, Suc k) (blocks s L {(a, k)} - {(Hand, a, k), (Free, ?a', k)})"
  proof -
    have "(Hand, a, k) \<notin> live_blocks s L" "(Hand, a, k) \<notin> free_blocks s"
      "(Free, ?a', k) \<notin> live_blocks s L" by simp_all
    then show ?thesis
      unfolding blocks_def u(10) u(11) bg(2) hand_blocks_single by blast
  qed
  have "geometry (blocks s L {(a, k)} - {(Hand, a, k), (Free, ?a', k)})"
    using d(8) by (rule geometry_subset) blast
  moreover have "Suc k \<le> MAX_ORDER" "MIN_ORDER \<le> Suc k" using kM blk(1) by simp_all
  moreover have "?lo < 2 ^ MAX_ORDER" using blk(4) by simp
  ultimately have g: "geometry (blocks s1 L {(?lo, Suc k)})"
    unfolding B using bg(5) by (intro geometry_insert)
  have p: "part (blocks s1 L {(?lo, Suc k)})"
    unfolding B using d(9) hb fb bg(6) by (rule part_merge)
  have "list (g_pages s1 (ADDR_TO_PAGE ?lo)) = Self_linked"
    unfolding bg(8) using d(5) by (simp add: u(3) owned_ok_def)
  moreover have "list (g_pages s1 (ADDR_TO_PAGE x)) = Self_linked" if "x \<in> L" for x
    using d(5) that by (simp add: u(3) owned_ok_def)
  ultimately have "owned_ok s1 L {(?lo, Suc k)}" by (simp add: owned_ok_def)
  with u(4-9) g p have "buddy_inv s1 L {(?lo, Suc k)}" by (simp add: buddy_inv_def)
  with u(1,2,3) show ?thesis by blast
qed

lemma finish_step:
  assumes inv: "buddy_inv s L {(a, k)}"
    and stop: "k < MAX_ORDER \<Longrightarrow> ADDR_TO_PAGE (BUDDY_ADDR a k) \<notin> set (free_area s k)"
  shows "\<exists>s'. free_finish s (ADDR_TO_PAGE a) k = Some s' \<and> buddy_inv s' L {}
          \<and> free_area s' = (free_area s)(k := ADDR_TO_PAGE a # free_area s k)
          \<and> (\<forall>q. g_pages s' q = (if q = ADDR_TO_PAGE a
                then (g_pages s (ADDR_TO_PAGE a))\<lparr>order := int k, list := Linked k\<rparr> else g_pages s q))"
proof -
  let ?p = "ADDR_TO_PAGE a"
  have hb: "(Hand, a, k) \<in> blocks s L {(a, k)}" by (rule hand_in_blocks) simp
  note blk = inv_block[OF inv hb]
  note d = buddy_invD[OF inv]
  have self: "list (g_pages s ?p) = Self_linked" using d(5) by (simp add: owned_ok_def)
  then have nl: "list (g_pages s ?p) \<noteq> Linked j" for j by simp
  have nb: "k < MAX_ORDER \<longrightarrow> ADDR_TO_PAGE (BUDDY_ADDR (PAGE_TO_ADDR ?p) k) \<notin> set (free_area s k)"
    unfolding blk(7) using stop by blast
  define s' where "s' = set_list ((set_order s ?p (int k))\<lparr>free_area := (free_area s)(k := ?p # free_area s k)\<rparr>)
                   ?p (Linked k)"
  note l = link_state[OF inv nl blk(1,2) nb, folded s'_def]
  have nL: "a \<notin> L"
    using live_not_overlapped[OF inv hb _ _ base_in_region[of "(Hand, a, k)", simplified]] by blast
  have oth: "ADDR_TO_PAGE x \<noteq> ?p" if "x \<in> L" for x
  proof
    assume e: "ADDR_TO_PAGE x = ?p"
    from inv_block(7)[OF inv live_in_blocks[OF that]] e blk(7) have "x = a" by metis
    with that nL show False by simp
  qed
  have lv: "live_blocks s' L = live_blocks s L" using oth by (rule l(11))
  have B: "blocks s' L {} = insert (Free, a, k) (blocks s L {(a, k)} - {(Hand, a, k)})"
  proof -
    have "(Hand, a, k) \<notin> live_blocks s L" "(Hand, a, k) \<notin> free_blocks s" by simp_all
    then show ?thesis
      unfolding blocks_def lv l(10) blk(7) hand_blocks_single hand_blocks_empty by blast
  qed
  have "owned_ok s' L {}" using d(5) oth unfolding owned_ok_def by (simp add: l(3))
  with l(4-9) retag_inv_parts[OF inv hb B] have "buddy_inv s' L {}" by (simp add: buddy_inv_def)
  with l(1,2,3) show ?thesis unfolding free_finish_def by blast
qed

subsection \<open>The release loop\<close>

lemma hand_page:
  assumes inv: "buddy_inv s L {(a, k)}"
  shows "ADDR_TO_PAGE a < n_pages" "mem (g_pages s (ADDR_TO_PAGE a)) = a"
    "PAGE_TO_ADDR (ADDR_TO_PAGE a) = a" "MIN_ORDER \<le> k" "k \<le> MAX_ORDER"
proof -
  have hb: "(Hand, a, k) \<in> blocks s L {(a, k)}" by (rule hand_in_blocks) simp
  note blk = inv_block[OF inv hb]
  show "ADDR_TO_PAGE a < n_pages" "PAGE_TO_ADDR (ADDR_TO_PAGE a) = a" "MIN_ORDER \<le> k" "k \<le> MAX_ORDER"
    by (rule blk)+
  show "mem (g_pages s (ADDR_TO_PAGE a)) = a"
    using inv_mem[OF inv blk(6)] blk(7) by simp
qed

lemma free_loop_correct:
  "buddy_inv s L {(a, k)} \<Longrightarrow>
     \<exists>s'. free_loop s (ADDR_TO_PAGE a) k = Some s' \<and> buddy_inv s' L {}
          \<and> free_area s' = coalesce (free_area s) (ADDR_TO_PAGE a) k"
proof (induction "MAX_ORDER - k" arbitrary: s a k)
  case 0
  note inv = \<open>buddy_inv s L {(a, k)}\<close>
  have kM: "\<not> k < MAX_ORDER" using "0.hyps" by simp
  from finish_step[OF inv] kM
  obtain s' where s': "free_finish s (ADDR_TO_PAGE a) k = Some s'" "buddy_inv s' L {}"
    "free_area s' = (free_area s)(k := ADDR_TO_PAGE a # free_area s k)" by blast
  have "free_loop s (ADDR_TO_PAGE a) k = Some s'"
    using kM s'(1) by (subst free_loop.simps) simp
  moreover have "coalesce (free_area s) (ADDR_TO_PAGE a) k = (free_area s)(k := ADDR_TO_PAGE a # free_area s k)"
    using kM by (subst coalesce.simps) (simp add: Let_def)
  ultimately show ?case using s'(2,3) by metis
next
  case (Suc n)
  note inv = \<open>buddy_inv s L {(a, k)}\<close>
  have kM: "k < MAX_ORDER" using Suc.hyps(2) by simp
  let ?p = "ADDR_TO_PAGE a"
  let ?b = "ADDR_TO_PAGE (BUDDY_ADDR a k)"
  note hp = hand_page[OF inv]
  note bg = buddy_geometry[OF inv kM]
  note mc = merge_cond(1)[OF inv kM]
  have bp: "ADDR_TO_PAGE (BUDDY_ADDR (PAGE_TO_ADDR ?p) k) = ?b" unfolding hp(3) ..
  show ?case
  proof (cases "?b \<in> set (free_area s k)")
    case False
    from finish_step[OF inv] False
    obtain s' where s': "free_finish s ?p k = Some s'" "buddy_inv s' L {}"
      "free_area s' = (free_area s)(k := ?p # free_area s k)" by blast
    have "free_loop s ?p k = Some s'"
      using kM s'(1) bg(1) mc False by (subst free_loop.simps) (simp add: Let_def hp(2))
    moreover have "coalesce (free_area s) ?p k = (free_area s)(k := ?p # free_area s k)"
      using False by (subst coalesce.simps) (simp add: Let_def bp)
    ultimately show ?thesis using s'(2,3) by metis
  next
    case True
    let ?lo = "min a (BUDDY_ADDR a k)"
    from merge_step[OF inv kM True]
    obtain s1 where s1: "list_del_init s ?b = Some s1" "buddy_inv s1 L {(?lo, Suc k)}"
      "free_area s1 = (free_area s)(k := remove1 ?b (free_area s k))" by blast
    have "n = MAX_ORDER - Suc k" using Suc.hyps(2) by simp
    from Suc.hyps(1)[OF this s1(2)]
    obtain s' where s': "free_loop s1 (ADDR_TO_PAGE ?lo) (Suc k) = Some s'" "buddy_inv s' L {}"
      "free_area s' = coalesce (free_area s1) (ADDR_TO_PAGE ?lo) (Suc k)" by blast
    have nx: "(if ?b < ?p then ?b else ?p) = ADDR_TO_PAGE ?lo" using bg(8) by simp
    have nx': "min ?b ?p = ADDR_TO_PAGE ?lo" unfolding nx[symmetric] by (simp add: min_def)
    have "free_loop s ?p k = Some s'"
      using kM bg(1) mc True s1(1) s'(1) nx
      by (subst free_loop.simps) (simp add: Let_def hp(2))
    moreover have "coalesce (free_area s) ?p k = coalesce (free_area s1) (ADDR_TO_PAGE ?lo) (Suc k)"
      using kM True by (subst coalesce.simps) (simp add: Let_def bp s1(3) nx')
    ultimately show ?thesis using s'(2,3) by metis
  qed
qed

subsection \<open>The split loop\<close>

lemma page_of_sum:
  assumes "PAGE_SIZE dvd a" "MIN_ORDER \<le> j"
  shows "PAGE_TO_ADDR (ADDR_TO_PAGE (a + 2 ^ j)) = a + 2 ^ j"
proof -
  have "PAGE_SIZE dvd 2 ^ j" using assms(2) unfolding PAGE_SIZE_def by (rule le_imp_power_dvd)
  with assms(1) have "PAGE_SIZE dvd a + 2 ^ j" by (rule dvd_add)
  then show ?thesis by (rule PAGE_TO_ADDR_inverse)
qed

lemma split_pages_distinct:
  assumes "PAGE_SIZE dvd a" "MIN_ORDER \<le> j" "MIN_ORDER \<le> k" "j \<noteq> k"
  shows "ADDR_TO_PAGE (a + 2 ^ j) \<noteq> ADDR_TO_PAGE (a + 2 ^ k)"
proof
  assume "ADDR_TO_PAGE (a + 2 ^ j) = ADDR_TO_PAGE (a + 2 ^ k)"
  then have "a + 2 ^ j = a + 2 ^ k"
    using page_of_sum[OF assms(1,2)] page_of_sum[OF assms(1,3)] by metis
  then have "(2::nat) ^ j = 2 ^ k" by simp
  then show False using assms(4) by simp
qed

lemma split_correct:
  "buddy_inv s L {(a, cur)} \<Longrightarrow> MIN_ORDER \<le> tgt \<Longrightarrow> tgt \<le> cur \<Longrightarrow>
     \<exists>s'. split s (ADDR_TO_PAGE a) cur tgt = Some s' \<and> buddy_inv s' L {(a, tgt)}
        \<and> (\<forall>j. free_area s' j = (if tgt \<le> j \<and> j < cur then ADDR_TO_PAGE (a + 2 ^ j) # free_area s j
                                else free_area s j))
        \<and> (\<forall>j. tgt \<le> j \<and> j < cur \<longrightarrow>
               g_pages s' (ADDR_TO_PAGE (a + 2 ^ j))
                 = (g_pages s (ADDR_TO_PAGE (a + 2 ^ j)))\<lparr>order := int j, list := Linked j\<rparr>)
        \<and> (\<forall>q. (\<forall>j. tgt \<le> j \<and> j < cur \<longrightarrow> q \<noteq> ADDR_TO_PAGE (a + 2 ^ j)) \<longrightarrow> g_pages s' q = g_pages s q)"
proof (induction "cur - tgt" arbitrary: s cur)
  case 0
  then have "cur = tgt" by simp
  then have "split s (ADDR_TO_PAGE a) cur tgt = Some s" by (subst split.simps) simp
  then show ?case using \<open>cur = tgt\<close> "0.prems"(1) by auto
next
  case (Suc n)
  note inv = \<open>buddy_inv s L {(a, cur)}\<close>
  obtain k where cur: "cur = Suc k" using Suc.hyps(2) by (cases cur) simp_all
  have k: "tgt \<le> k" "MIN_ORDER \<le> k" "n = k - tgt" using Suc.hyps(2) Suc.prems(2) cur by simp_all
  note hp = hand_page[OF inv]
  have pga: "PAGE_SIZE dvd a" using hp(3) by (metis PAGE_TO_ADDR_def dvd_triv_right)
  let ?b = "ADDR_TO_PAGE (BUDDY_ADDR a k)"
  note st = split_step[OF inv[unfolded cur] k(2)]
  have b: "?b = ADDR_TO_PAGE (a + 2 ^ k)" using st(2) by (metis ADDR_TO_PAGE_inverse)
  from st(3) obtain s1 where s1: "list_add (set_order s ?b (int k)) ?b k = Some s1"
    "buddy_inv s1 L {(a, k)}" "free_area s1 = (free_area s)(k := ?b # free_area s k)"
    "\<And>q. g_pages s1 q = (if q = ?b then (g_pages s ?b)\<lparr>order := int k, list := Linked k\<rparr> else g_pages s q)"
    by blast
  from Suc.hyps(1)[OF k(3) s1(2) Suc.prems(2) k(1)]
  obtain s' where s': "split s1 (ADDR_TO_PAGE a) k tgt = Some s'" "buddy_inv s' L {(a, tgt)}"
    "\<And>j. free_area s' j = (if tgt \<le> j \<and> j < k then ADDR_TO_PAGE (a + 2 ^ j) # free_area s1 j
                                else free_area s1 j)"
    "\<And>j. tgt \<le> j \<and> j < k \<Longrightarrow> g_pages s' (ADDR_TO_PAGE (a + 2 ^ j))
                 = (g_pages s1 (ADDR_TO_PAGE (a + 2 ^ j)))\<lparr>order := int j, list := Linked j\<rparr>"
    "\<And>q. (\<forall>j. tgt \<le> j \<and> j < k \<longrightarrow> q \<noteq> ADDR_TO_PAGE (a + 2 ^ j)) \<Longrightarrow> g_pages s' q = g_pages s1 q"
    by blast
  have run: "split s (ADDR_TO_PAGE a) cur tgt = Some s'"
    using st(1) s1(1) s'(1) k(1)
    by (subst split.simps) (simp add: Let_def cur hp(2))
  have fa: "free_area s' j = (if tgt \<le> j \<and> j < cur then ADDR_TO_PAGE (a + 2 ^ j) # free_area s j
                                else free_area s j)" for j
    unfolding s'(3) s1(3) cur b using k(1) by (cases "j = k") auto
  have dist: "ADDR_TO_PAGE (a + 2 ^ j) \<noteq> ?b" if "tgt \<le> j \<and> j < k" for j
    unfolding b using pga _ k(2) by (rule split_pages_distinct) (use that Suc.prems(2) in simp_all)
  have bs: "g_pages s' ?b = g_pages s1 ?b"
    using dist by (intro s'(5)) metis
  have gp: "g_pages s' (ADDR_TO_PAGE (a + 2 ^ j))
                 = (g_pages s (ADDR_TO_PAGE (a + 2 ^ j)))\<lparr>order := int j, list := Linked j\<rparr>"
    if "tgt \<le> j \<and> j < cur" for j
  proof (cases "j = k")
    case True
    then show ?thesis using bs s1(4)[of ?b] by (simp add: b)
  next
    case False
    then have j: "tgt \<le> j \<and> j < k" using that cur by simp
    show ?thesis using s'(4)[OF j] dist[OF j] by (simp add: s1(4))
  qed
  have un: "g_pages s' q = g_pages s q"
    if "\<forall>j. tgt \<le> j \<and> j < cur \<longrightarrow> q \<noteq> ADDR_TO_PAGE (a + 2 ^ j)" for q
  proof -
    have "q \<noteq> ?b" using that k(1) cur b by simp
    moreover have "\<forall>j. tgt \<le> j \<and> j < k \<longrightarrow> q \<noteq> ADDR_TO_PAGE (a + 2 ^ j)" using that cur by simp
    ultimately show ?thesis using s'(5)[of q] s1(4)[of q] by simp
  qed
  show ?case using run s'(2) fa gp un by blast
qed

subsection \<open>The allocation loop\<close>

lemma alloc_loop_fail:
  "(\<forall>j. i \<le> j \<and> j \<le> MAX_ORDER \<longrightarrow> free_area s j = []) \<Longrightarrow> alloc_loop s ord i = Some (s, None)"
proof (induction "Suc MAX_ORDER - i" arbitrary: i)
  case 0
  then have "\<not> i \<le> MAX_ORDER" by simp
  then show ?case by (subst alloc_loop.simps) simp
next
  case (Suc n)
  then have i: "i \<le> MAX_ORDER" "n = Suc MAX_ORDER - (i + 1)" by simp_all
  have e: "free_area s i = []" using Suc.prems i(1) by simp
  have "alloc_loop s ord (i + 1) = Some (s, None)"
    using i(2) by (rule Suc.hyps(1)) (use Suc.prems in simp)
  then show ?case using i(1) e by (subst alloc_loop.simps) (simp add: list_empty_head_def)
qed

lemma alloc_loop_skip:
  "i \<le> i0 \<Longrightarrow> i0 \<le> Suc MAX_ORDER \<Longrightarrow> (\<forall>j. i \<le> j \<and> j < i0 \<longrightarrow> free_area s j = [])
     \<Longrightarrow> alloc_loop s ord i = alloc_loop s ord i0"
proof (induction "i0 - i" arbitrary: i)
  case 0
  then show ?case by simp
next
  case (Suc n)
  then have i: "i < i0" "i \<le> MAX_ORDER" "n = i0 - (i + 1)" by simp_all
  have e: "free_area s i = []" using Suc.prems(3) i(1) by simp
  have "alloc_loop s ord (i + 1) = alloc_loop s ord i0"
    using i(3) by (rule Suc.hyps(1)) (use Suc.prems i in simp_all)
  then show ?case using i(2) e by (subst alloc_loop.simps) (simp add: list_empty_head_def)
qed

lemma alloc_loop_hit:
  assumes inv: "buddy_inv s L {}" and ord: "MIN_ORDER \<le> ord" "ord \<le> i0" "i0 \<le> MAX_ORDER"
    and ne: "free_area s i0 \<noteq> []"
  defines "p \<equiv> hd (free_area s i0)"
  defines "a \<equiv> PAGE_TO_ADDR p"
  shows "\<exists>s'. alloc_loop s ord i0 = Some (s', Some a) \<and> buddy_inv s' (insert a L) {} \<and> a \<notin> L
          \<and> order (g_pages s' (ADDR_TO_PAGE a)) = int ord
          \<and> (\<forall>j. free_area s' j = (if ord \<le> j \<and> j < i0 then ADDR_TO_PAGE (a + 2 ^ j) # free_area s j
                                  else if j = i0 then tl (free_area s i0) else free_area s j))
          \<and> (\<forall>j. ord \<le> j \<and> j < i0 \<longrightarrow> order (g_pages s' (ADDR_TO_PAGE (a + 2 ^ j))) = int j)
          \<and> (\<forall>q. q \<noteq> p \<and> (\<forall>j. ord \<le> j \<and> j < i0 \<longrightarrow> q \<noteq> ADDR_TO_PAGE (a + 2 ^ j))
                 \<longrightarrow> g_pages s' q = g_pages s q)"
proof -
  have i0: "MIN_ORDER \<le> i0" using ord by simp
  have pm: "p \<in> set (free_area s i0)" unfolding p_def using ne by (rule hd_in_set)
  have tl: "remove1 p (free_area s i0) = tl (free_area s i0)"
    unfolding p_def using ne by (cases "free_area s i0") simp_all
  from take_step[OF inv i0 ord(3) pm]
  obtain s1 where s1: "list_del_init s p = Some s1" "buddy_inv s1 L {(a, i0)}"
    "free_area s1 = (free_area s)(i0 := tl (free_area s i0))"
    "\<And>q. g_pages s1 q = (if q = p then (g_pages s p)\<lparr>list := Self_linked\<rparr> else g_pages s q)"
    unfolding a_def tl by blast
  have pa: "ADDR_TO_PAGE a = p" by (simp add: a_def)
  note hp = hand_page[OF s1(2), unfolded pa]
  have pga: "PAGE_SIZE dvd a" unfolding a_def PAGE_TO_ADDR_def by simp
  from split_correct[OF s1(2) ord(1,2), unfolded pa]
  obtain s2 where s2: "split s1 p i0 ord = Some s2" "buddy_inv s2 L {(a, ord)}"
    "\<And>j. free_area s2 j = (if ord \<le> j \<and> j < i0 then ADDR_TO_PAGE (a + 2 ^ j) # free_area s1 j
                                else free_area s1 j)"
    "\<And>j. ord \<le> j \<and> j < i0 \<Longrightarrow> g_pages s2 (ADDR_TO_PAGE (a + 2 ^ j))
                 = (g_pages s1 (ADDR_TO_PAGE (a + 2 ^ j)))\<lparr>order := int j, list := Linked j\<rparr>"
    "\<And>q. (\<forall>j. ord \<le> j \<and> j < i0 \<longrightarrow> q \<noteq> ADDR_TO_PAGE (a + 2 ^ j)) \<Longrightarrow> g_pages s2 q = g_pages s1 q"
    by blast
  define s' where "s' = set_order s2 p (int ord)"
  from give_step[OF s2(2), unfolded pa, folded s'_def]
  have g: "a \<notin> L" "buddy_inv s' (insert a L) {}" by simp_all
  have m: "mem (g_pages s' p) = a" using inv_mem[OF g(2) hp(1)] by (simp add: a_def)
  have same: "s2 = s1" if "i0 = ord"
  proof -
    have "split s1 p i0 ord = Some s1" using that by (subst split.simps) simp
    with s2(1) show ?thesis by simp
  qed
  have run: "alloc_loop s ord i0 = Some (s', Some a)"
  proof (cases "i0 = ord")
    case True
    show ?thesis
      using ord(3) ne s1(1) m same[OF True] True[symmetric]
      by (subst alloc_loop.simps) (simp add: list_empty_head_def Let_def p_def[symmetric] s'_def)
  next
    case False
    show ?thesis
      using ord(3) ne s1(1) s2(1) m False
      by (subst alloc_loop.simps) (simp add: list_empty_head_def Let_def p_def[symmetric] s'_def)
  qed
  have np: "ADDR_TO_PAGE (a + 2 ^ j) \<noteq> p" if "MIN_ORDER \<le> j" for j
  proof
    assume "ADDR_TO_PAGE (a + 2 ^ j) = p"
    then have "a + 2 ^ j = a" using page_of_sum[OF pga that] by (simp add: a_def)
    then show False by simp
  qed
  have o1: "order (g_pages s' (ADDR_TO_PAGE a)) = int ord"
    by (simp add: pa s'_def g_pages_set_order)
  have fa: "free_area s' j = (if ord \<le> j \<and> j < i0 then ADDR_TO_PAGE (a + 2 ^ j) # free_area s j
                                  else if j = i0 then tl (free_area s i0) else free_area s j)" for j
    by (simp add: s'_def s2(3) s1(3))
  have o2: "order (g_pages s' (ADDR_TO_PAGE (a + 2 ^ j))) = int j" if "ord \<le> j \<and> j < i0" for j
  proof -
    have "MIN_ORDER \<le> j" using that ord(1) by simp
    from np[OF this] show ?thesis by (simp add: s'_def g_pages_set_order s2(4)[OF that])
  qed
  have un: "g_pages s' q = g_pages s q"
    if "q \<noteq> p \<and> (\<forall>j. ord \<le> j \<and> j < i0 \<longrightarrow> q \<noteq> ADDR_TO_PAGE (a + 2 ^ j))" for q
    using that by (simp add: s'_def g_pages_set_order s2(5) s1(4))
  show ?thesis using run g o1 fa o2 un by blast
qed

subsection \<open>Initial state, allocation, release and reachable states\<close>

lemma buddy_init_inv: "buddy_inv buddy_init {} {}"
proof -
  have fa: "free_area buddy_init i = (if i = MAX_ORDER then [0] else [])" for i
    by (simp add: buddy_init_def)
  have gp: "g_pages buddy_init p = (if p = 0
              then \<lparr>list = Linked MAX_ORDER, order = - 1, index = 0, mem = PAGE_TO_ADDR 0\<rparr>
              else \<lparr>list = Null_links, order = - 1, index = int p, mem = PAGE_TO_ADDR p\<rparr>)" for p
    by (simp add: buddy_init_def)
  have mm: "MIN_ORDER \<le> MAX_ORDER" by (simp add: MIN_ORDER_def MAX_ORDER_def)
  have "pages_ok buddy_init" by (simp add: pages_ok_def gp)
  moreover have "links_ok buddy_init" using mm by (auto simp: links_ok_def gp fa)
  moreover have "lists_distinct buddy_init" by (simp add: lists_distinct_def fa)
  moreover have "free_order buddy_init" by (simp add: free_order_def fa)
  moreover have "owned_ok buddy_init {} {}" by (simp add: owned_ok_def)
  moreover have "null_ok buddy_init" by (simp add: null_ok_def gp)
  moreover have "coalesced buddy_init" by (simp add: coalesced_def fa)
  moreover have B: "blocks buddy_init {} {} = {(Free, 0, MAX_ORDER)}"
  proof -
    have "free_blocks buddy_init = {(Free, 0, MAX_ORDER)}"
      using mm by (auto simp: free_blocks_def fa PAGE_TO_ADDR_def)
    then show ?thesis by (simp add: blocks_def live_blocks_def)
  qed
  moreover have "geometry {(Free, 0, MAX_ORDER)}" using mm by (simp add: geometry_def)
  moreover have "part {(Free, 0, MAX_ORDER)}" by (simp add: part_def region_eq lessThan_atLeast0)
  ultimately show ?thesis by (simp add: buddy_inv_def)
qed

lemma buddy_alloc_too_big: "orderFor sz = - 1 \<Longrightarrow> buddy_alloc s sz = Some (s, None)"
  by (simp add: buddy_alloc_def)

lemma buddy_alloc_exhausted:
  assumes "orderFor sz = int ord" "\<forall>j. ord \<le> j \<and> j \<le> MAX_ORDER \<longrightarrow> free_area s j = []"
  shows "buddy_alloc s sz = Some (s, None)"
  using alloc_loop_fail[OF assms(2), of ord] assms(1) by (simp add: buddy_alloc_def)

lemma first_free_ex:
  assumes "ord \<le> j" "j \<le> MAX_ORDER" "free_area s j \<noteq> []"
  shows "\<exists>i0. ord \<le> i0 \<and> i0 \<le> MAX_ORDER \<and> free_area s i0 \<noteq> []
              \<and> (\<forall>j. ord \<le> j \<and> j < i0 \<longrightarrow> free_area s j = [])"
proof -
  define P where "P i = (ord \<le> i \<and> free_area s i \<noteq> [])" for i
  define i0 where "i0 = (LEAST i. P i)"
  have Pj: "P j" using assms by (simp add: P_def)
  have l: "P i0" "i0 \<le> j" "\<And>i. i < i0 \<Longrightarrow> \<not> P i"
    unfolding i0_def using Pj LeastI[of P j] Least_le[of P j] not_less_Least[of _ P] by blast+
  have "ord \<le> i0" "free_area s i0 \<noteq> []" using l(1) by (simp_all add: P_def)
  moreover have "i0 \<le> MAX_ORDER" using l(2) assms(2) by simp
  moreover have "\<forall>j. ord \<le> j \<and> j < i0 \<longrightarrow> free_area s j = []" using l(3) by (auto simp: P_def)
  ultimately show ?thesis by blast
qed

lemma buddy_alloc_hit:
  assumes inv: "buddy_inv s L {}" and o: "orderFor sz = int ord"
    and i0: "ord \<le> i0" "i0 \<le> MAX_ORDER" "free_area s i0 \<noteq> []"
      "\<forall>j. ord \<le> j \<and> j < i0 \<longrightarrow> free_area s j = []"
  defines "a \<equiv> PAGE_TO_ADDR (hd (free_area s i0))"
  shows "\<exists>s'. buddy_alloc s sz = Some (s', Some a) \<and> buddy_inv s' (insert a L) {} \<and> a \<notin> L
          \<and> order (g_pages s' (ADDR_TO_PAGE a)) = int ord
          \<and> (\<forall>j. free_area s' j = (if ord \<le> j \<and> j < i0 then ADDR_TO_PAGE (a + 2 ^ j) # free_area s j
                                  else if j = i0 then tl (free_area s i0) else free_area s j))
          \<and> (\<forall>j. ord \<le> j \<and> j < i0 \<longrightarrow> order (g_pages s' (ADDR_TO_PAGE (a + 2 ^ j))) = int j)
          \<and> (\<forall>q. q \<noteq> hd (free_area s i0) \<and> (\<forall>j. ord \<le> j \<and> j < i0 \<longrightarrow> q \<noteq> ADDR_TO_PAGE (a + 2 ^ j))
                 \<longrightarrow> g_pages s' q = g_pages s q)"
proof -
  have m: "MIN_ORDER \<le> ord" using orderFor_loop_Some[of MIN_ORDER sz ord] o by (simp add: orderFor_def)
  have "buddy_alloc s sz = alloc_loop s ord ord" using o by (simp add: buddy_alloc_def)
  also have "\<dots> = alloc_loop s ord i0" using i0(1) _ i0(4) by (rule alloc_loop_skip) (use i0(2) in simp)
  finally have e: "buddy_alloc s sz = alloc_loop s ord i0" .
  show ?thesis unfolding e a_def using inv m i0(1,2,3) by (rule alloc_loop_hit)
qed

lemma buddy_alloc_inv:
  assumes inv: "buddy_inv s L {}"
  shows "buddy_alloc s sz = Some (s, None)
         \<or> (\<exists>s' a. buddy_alloc s sz = Some (s', Some a) \<and> a \<notin> L \<and> buddy_inv s' (insert a L) {})"
proof -
  from orderFor_cases[of sz] show ?thesis
  proof
    assume "orderFor sz = - 1"
    then show ?thesis by (simp add: buddy_alloc_too_big)
  next
    assume "\<exists>r. orderFor sz = int r \<and> MIN_ORDER \<le> r \<and> r \<le> MAX_ORDER \<and> sz \<le> 2 ^ r"
    then obtain ord where o: "orderFor sz = int ord" by blast
    show ?thesis
    proof (cases "\<forall>j. ord \<le> j \<and> j \<le> MAX_ORDER \<longrightarrow> free_area s j = []")
      case True
      with o show ?thesis by (simp add: buddy_alloc_exhausted)
    next
      case False
      then obtain j where "ord \<le> j" "j \<le> MAX_ORDER" "free_area s j \<noteq> []" by blast
      from first_free_ex[OF this] obtain i0 where i0: "ord \<le> i0" "i0 \<le> MAX_ORDER" "free_area s i0 \<noteq> []"
        "\<forall>j. ord \<le> j \<and> j < i0 \<longrightarrow> free_area s j = []" by blast
      from buddy_alloc_hit[OF inv o i0] show ?thesis by blast
    qed
  qed
qed

lemma buddy_free_correct:
  assumes inv: "buddy_inv s L {}" and a: "a \<in> L"
  shows "\<exists>s'. buddy_free s a = Some s' \<and> buddy_inv s' (L - {a}) {}
           \<and> free_area s' = coalesce (free_area s) (ADDR_TO_PAGE a) (nat (order (g_pages s (ADDR_TO_PAGE a))))"
proof -
  let ?k = "nat (order (g_pages s (ADDR_TO_PAGE a)))"
  note r = release_step[OF inv a]
  note hp = hand_page[OF r]
  have "0 < ?k" using hp(4) by (simp add: MIN_ORDER_def)
  then have pos: "\<not> order (g_pages s (ADDR_TO_PAGE a)) < 0" by simp
  have "buddy_free s a = free_loop s (ADDR_TO_PAGE a) ?k"
    using hp(1) pos by (simp add: buddy_free_def Let_def)
  with free_loop_correct[OF r] show ?thesis by simp
qed

lemma reach_inv: "reach s L \<Longrightarrow> buddy_inv s L {}"
proof (induction rule: reach.induct)
  case reach_init
  show ?case by (rule buddy_init_inv)
next
  case (reach_alloc s L size' s' a)
  from buddy_alloc_inv[OF reach_alloc.IH, of size'] reach_alloc.hyps(2) show ?case by auto
next
  case (reach_alloc_fail s L size' s')
  from buddy_alloc_inv[OF reach_alloc_fail.IH, of size'] reach_alloc_fail.hyps(2) reach_alloc_fail.IH
  show ?case by auto
next
  case (reach_free s L a s')
  from buddy_free_correct[OF reach_free.IH reach_free.hyps(2)] reach_free.hyps(3) show ?case by auto
qed

subsection \<open>The partition invariant\<close>

lemma orderFor_4096: "orderFor 4096 = int 12"
  by (simp add: orderFor_def MIN_ORDER_def MAX_ORDER_def)

lemma first_alloc:
  "\<exists>s'. buddy_alloc buddy_init 4096 = Some (s', Some 0) \<and> reach s' {0}
        \<and> order (g_pages s' 0) = 12
        \<and> (\<forall>j. free_area s' j = (if 12 \<le> j \<and> j < 20 then [ADDR_TO_PAGE (2 ^ j)] else []))"
proof -
  have fa: "free_area buddy_init i = (if i = 20 then [0] else [])" for i
    by (simp add: buddy_init_def MAX_ORDER_def)
  have "\<forall>j. 12 \<le> j \<and> j < 20 \<longrightarrow> free_area buddy_init j = []" by (simp add: fa)
  from buddy_alloc_hit[OF buddy_init_inv orderFor_4096, of 20, OF _ _ _ this]
  obtain s' where s': "buddy_alloc buddy_init 4096 = Some (s', Some 0)"
    "order (g_pages s' (ADDR_TO_PAGE 0)) = int 12"
    "\<And>j. free_area s' j = (if 12 \<le> j \<and> j < 20 then ADDR_TO_PAGE (0 + 2 ^ j) # free_area buddy_init j
                                  else if j = 20 then tl (free_area buddy_init 20) else free_area buddy_init j)"
    by (auto simp: fa MAX_ORDER_def PAGE_TO_ADDR_def)
  have "reach s' (insert 0 {})" using reach_init s'(1) by (rule reach_alloc)
  moreover have "order (g_pages s' 0) = 12" using s'(2) by (simp add: ADDR_TO_PAGE_def)
  moreover have "free_area s' j = (if 12 \<le> j \<and> j < 20 then [ADDR_TO_PAGE (2 ^ j)] else [])" for j
    unfolding s'(3) by (simp add: fa)
  ultimately show ?thesis using s'(1) by auto
qed

text \<open>
  C1.  Partition invariant: in every state reachable from the initialised allocator by
  well-behaved calls, every byte of the arena lies in exactly one block (a live
  allocation or a free-list entry, at one order), no block reaches outside the arena,
  and no free list holds a page twice.
\<close>

theorem partition_invariant:
  assumes "reach s L"
  shows "(\<forall>x. x < 2 ^ MAX_ORDER \<longrightarrow> (\<exists>!b. b \<in> arena_blocks s L \<and> x \<in> region b))
         \<and> (\<forall>b. b \<in> arena_blocks s L \<longrightarrow> region b \<subseteq> {..<2 ^ MAX_ORDER})
         \<and> (\<forall>i. distinct (free_area s i))"
proof -
  have inv: "buddy_inv s L {}" using assms by (rule reach_inv)
  have B: "blocks s L {} = arena_blocks s L" by (simp add: blocks_def arena_blocks_def)
  have p: "part (arena_blocks s L)" using buddy_invD(9)[OF inv] unfolding B .
  have u: "(\<Union>b\<in>arena_blocks s L. region b) = {..<2 ^ MAX_ORDER}" using p by (simp add: part_def)
  have ex1: "\<exists>!b. b \<in> arena_blocks s L \<and> x \<in> region b" if "x < 2 ^ MAX_ORDER" for x
  proof -
    have "x \<in> (\<Union>b\<in>arena_blocks s L. region b)" unfolding u using that by simp
    then obtain b where b: "b \<in> arena_blocks s L" "x \<in> region b" by blast
    show ?thesis
    proof (rule ex1I[of _ b])
      show "b \<in> arena_blocks s L \<and> x \<in> region b" using b by simp
    next
      fix c assume "c \<in> arena_blocks s L \<and> x \<in> region c"
      then show "c = b" using part_overlap_eq[OF p _ b(1) _ b(2)] by blast
    qed
  qed
  have sub: "region b \<subseteq> {..<2 ^ MAX_ORDER}" if "b \<in> arena_blocks s L" for b
    using that u by blast
  have "\<forall>i. distinct (free_area s i)" using buddy_invD(3)[OF inv] by (simp add: lists_distinct_def)
  with ex1 sub show ?thesis by blast
qed

theorem partition_invariant_witness:
  "\<exists>s'. buddy_alloc buddy_init 4096 = Some (s', Some 0) \<and> reach s' {0}
        \<and> (\<exists>!b. b \<in> arena_blocks s' {0} \<and> 5000 \<in> region b)
        \<and> (Free, 4096, 12) \<in> arena_blocks s' {0} \<and> 5000 \<in> region (Free, 4096, 12)
        \<and> distinct (free_area s' 12)"
proof -
  from first_alloc obtain s' where s': "buddy_alloc buddy_init 4096 = Some (s', Some 0)" "reach s' {0}"
    "\<And>j. free_area s' j = (if 12 \<le> j \<and> j < 20 then [ADDR_TO_PAGE (2 ^ j)] else [])" by blast
  note t = partition_invariant[OF s'(2)]
  have "(5000::nat) < 2 ^ MAX_ORDER" by (simp add: MAX_ORDER_def)
  with t have "\<exists>!b. b \<in> arena_blocks s' {0} \<and> 5000 \<in> region b" by blast
  moreover have "(Free, 4096, 12) \<in> arena_blocks s' {0}"
  proof -
    have "1 \<in> set (free_area s' 12)" by (simp add: s'(3) ADDR_TO_PAGE_def PAGE_SIZE_eq)
    then have "(Free, PAGE_TO_ADDR 1, 12) \<in> free_blocks s'"
      by (intro free_blocksI) (simp_all add: MIN_ORDER_def MAX_ORDER_def)
    then show ?thesis by (simp add: arena_blocks_def PAGE_TO_ADDR_def PAGE_SIZE_eq)
  qed
  moreover have "5000 \<in> region (Free, 4096, 12)" by (simp add: region_eq)
  moreover have "distinct (free_area s' 12)" using t by blast
  ultimately show ?thesis using s'(1,2) by blast
qed

subsection \<open>Successful allocation, and coalescing after a split\<close>

lemma buddy_alloc_SomeD:
  assumes inv: "buddy_inv s L {}" and r: "buddy_alloc s sz = Some (s', Some a)"
  shows "\<exists>ord i0. orderFor sz = int ord \<and> MIN_ORDER \<le> ord \<and> ord \<le> i0 \<and> i0 \<le> MAX_ORDER
          \<and> free_area s i0 \<noteq> [] \<and> (\<forall>j. ord \<le> j \<and> j < i0 \<longrightarrow> free_area s j = [])
          \<and> a = PAGE_TO_ADDR (hd (free_area s i0))
          \<and> buddy_inv s' (insert a L) {} \<and> a \<notin> L
          \<and> order (g_pages s' (ADDR_TO_PAGE a)) = int ord
          \<and> (\<forall>j. free_area s' j = (if ord \<le> j \<and> j < i0 then ADDR_TO_PAGE (a + 2 ^ j) # free_area s j
                                  else if j = i0 then tl (free_area s i0) else free_area s j))
          \<and> (\<forall>j. ord \<le> j \<and> j < i0 \<longrightarrow> order (g_pages s' (ADDR_TO_PAGE (a + 2 ^ j))) = int j)
          \<and> (\<forall>q. q \<noteq> hd (free_area s i0) \<and> (\<forall>j. ord \<le> j \<and> j < i0 \<longrightarrow> q \<noteq> ADDR_TO_PAGE (a + 2 ^ j))
                 \<longrightarrow> g_pages s' q = g_pages s q)"
proof -
  have "orderFor sz \<noteq> - 1" using r buddy_alloc_too_big[of sz s] by auto
  with orderFor_cases[of sz] obtain ord where o: "orderFor sz = int ord" "MIN_ORDER \<le> ord" by blast
  have "\<not> (\<forall>j. ord \<le> j \<and> j \<le> MAX_ORDER \<longrightarrow> free_area s j = [])"
    using r buddy_alloc_exhausted[OF o(1), of s] by auto
  then obtain j where "ord \<le> j" "j \<le> MAX_ORDER" "free_area s j \<noteq> []" by blast
  from first_free_ex[OF this] obtain i0 where i0: "ord \<le> i0" "i0 \<le> MAX_ORDER" "free_area s i0 \<noteq> []"
    "\<forall>j. ord \<le> j \<and> j < i0 \<longrightarrow> free_area s j = []" by blast
  have "\<exists>t. buddy_alloc s sz = Some (t, Some (PAGE_TO_ADDR (hd (free_area s i0)))) \<and>
     buddy_inv t (insert (PAGE_TO_ADDR (hd (free_area s i0))) L) {} \<and>
     PAGE_TO_ADDR (hd (free_area s i0)) \<notin> L \<and>
     order (g_pages t (ADDR_TO_PAGE (PAGE_TO_ADDR (hd (free_area s i0))))) = int ord \<and>
     (\<forall>j. free_area t j =
          (if ord \<le> j \<and> j < i0 then ADDR_TO_PAGE (PAGE_TO_ADDR (hd (free_area s i0)) + 2 ^ j) # free_area s j
           else if j = i0 then tl (free_area s i0) else free_area s j)) \<and>
     (\<forall>j. ord \<le> j \<and> j < i0 \<longrightarrow>
          order (g_pages t (ADDR_TO_PAGE (PAGE_TO_ADDR (hd (free_area s i0)) + 2 ^ j))) = int j) \<and>
     (\<forall>q. q \<noteq> hd (free_area s i0) \<and>
          (\<forall>j. ord \<le> j \<and> j < i0 \<longrightarrow> q \<noteq> ADDR_TO_PAGE (PAGE_TO_ADDR (hd (free_area s i0)) + 2 ^ j)) \<longrightarrow>
          g_pages t q = g_pages s q)" (is "\<exists>t. ?R t \<and> ?P t (PAGE_TO_ADDR (hd (free_area s i0)))")
    by (rule buddy_alloc_hit[OF inv o(1) i0])
  then obtain t where t: "?R t" "?P t (PAGE_TO_ADDR (hd (free_area s i0)))" by blast
  from t(1) r have ts: "t = s'" "PAGE_TO_ADDR (hd (free_area s i0)) = a" by simp_all
  have "?P s' a" using t(2) unfolding ts .
  with o i0 ts(2)[symmetric] show ?thesis by blast
qed

lemma coalesce_undo_split:
  "2 ^ i0 dvd PAGE_TO_ADDR p \<Longrightarrow> MIN_ORDER \<le> k \<Longrightarrow> k \<le> i0 \<Longrightarrow> i0 \<le> MAX_ORDER \<Longrightarrow>
   (\<forall>j. k \<le> j \<and> j < i0 \<longrightarrow> F j = [ADDR_TO_PAGE (PAGE_TO_ADDR p + 2 ^ j)]) \<Longrightarrow>
   (i0 < MAX_ORDER \<longrightarrow> ADDR_TO_PAGE (BUDDY_ADDR (PAGE_TO_ADDR p) i0) \<notin> set (F i0)) \<Longrightarrow>
   coalesce F p k = (\<lambda>j. if k \<le> j \<and> j < i0 then [] else if j = i0 then p # F i0 else F j)"
proof (induction "i0 - k" arbitrary: F k)
  case 0
  then have e: "k = i0" by simp
  have "coalesce F p i0 = F(i0 := p # F i0)"
    using "0.prems"(6) by (subst coalesce.simps) (auto simp: Let_def)
  then show ?case unfolding e by (auto simp: fun_eq_iff)
next
  case (Suc n)
  let ?a = "PAGE_TO_ADDR p"
  let ?b = "ADDR_TO_PAGE (?a + 2 ^ k)"
  have k: "k < i0" "k < MAX_ORDER" "n = i0 - Suc k" "Suc k \<le> i0" using Suc.hyps(2) Suc.prems(4) by simp_all
  have "(2::nat) ^ Suc k dvd 2 ^ i0" using k(4) by (rule le_imp_power_dvd)
  then have al: "2 ^ Suc k dvd ?a" using Suc.prems(1) by (rule dvd_trans)
  have ba: "BUDDY_ADDR ?a k = ?a + 2 ^ k" unfolding BUDDY_ADDR_def using al by (rule xor_pow_aligned)
  have Fk: "F k = [?b]" using Suc.prems(5) k(1) by simp
  have le: "p \<le> ?b"
  proof -
    have "ADDR_TO_PAGE ?a \<le> ADDR_TO_PAGE (?a + 2 ^ k)"
      unfolding ADDR_TO_PAGE_def by (rule div_le_mono) simp
    then show ?thesis by simp
  qed
  define F' where "F' = F(k := [])"
  have 5: "\<forall>j. Suc k \<le> j \<and> j < i0 \<longrightarrow> F' j = [ADDR_TO_PAGE (?a + 2 ^ j)]"
    using Suc.prems(5) by (simp add: F'_def)
  have 6: "i0 < MAX_ORDER \<longrightarrow> ADDR_TO_PAGE (BUDDY_ADDR ?a i0) \<notin> set (F' i0)"
    using Suc.prems(6) k(1) by (simp add: F'_def)
  have m: "MIN_ORDER \<le> Suc k" using Suc.prems(2) by simp
  have IH: "coalesce F' p (Suc k) = (\<lambda>j. if Suc k \<le> j \<and> j < i0 then [] else if j = i0 then p # F' i0 else F' j)"
    using k(3) Suc.prems(1) m k(4) Suc.prems(4) 5 6 by (rule Suc.hyps(1))
  have "coalesce F p k = coalesce F' p (Suc k)"
    using k(2) le by (subst coalesce.simps) (simp add: Let_def ba Fk F'_def min_def)
  also have "\<dots> = (\<lambda>j. if k \<le> j \<and> j < i0 then [] else if j = i0 then p # F i0 else F j)"
    unfolding IH using k(1) by (auto simp: fun_eq_iff F'_def)
  finally show ?case .
qed

subsection \<open>Round trip\<close>

lemma round_trip_lists:
  assumes inv: "buddy_inv s L {}" and r: "buddy_alloc s sz = Some (s', Some a)"
  shows "\<exists>s''. buddy_free s' a = Some s'' \<and> free_area s'' = free_area s \<and> buddy_inv s'' L {}"
proof -
  from buddy_alloc_SomeD[OF inv r]
  obtain ord i0 where o: "MIN_ORDER \<le> ord" "ord \<le> i0" "i0 \<le> MAX_ORDER" "free_area s i0 \<noteq> []"
    "\<forall>j. ord \<le> j \<and> j < i0 \<longrightarrow> free_area s j = []"
    "a = PAGE_TO_ADDR (hd (free_area s i0))" "buddy_inv s' (insert a L) {}" "a \<notin> L"
    "order (g_pages s' (ADDR_TO_PAGE a)) = int ord"
    "\<And>j. free_area s' j = (if ord \<le> j \<and> j < i0 then ADDR_TO_PAGE (a + 2 ^ j) # free_area s j
                                  else if j = i0 then tl (free_area s i0) else free_area s j)"
    by blast
  let ?p = "hd (free_area s i0)"
  have pa: "ADDR_TO_PAGE a = ?p" by (simp add: o(6))
  have pm: "?p \<in> set (free_area s i0)" using o(4) by (rule hd_in_set)
  have i0m: "MIN_ORDER \<le> i0" using o(1,2) by simp
  from buddy_free_correct[OF o(7), of a]
  obtain s'' where s'': "buddy_free s' a = Some s''" "buddy_inv s'' (insert a L - {a}) {}"
    "free_area s'' = coalesce (free_area s') ?p ord"
    unfolding pa o(9)[unfolded pa] by auto
  have L: "insert a L - {a} = L" using o(8) by simp
  have "(Free, PAGE_TO_ADDR ?p, i0) \<in> blocks s L {}"
    unfolding blocks_def using free_blocksI[OF i0m o(3) pm] by simp
  from inv_block(3)[OF inv this] have al: "2 ^ i0 dvd PAGE_TO_ADDR ?p" .
  have F: "\<forall>j. ord \<le> j \<and> j < i0 \<longrightarrow> free_area s' j = [ADDR_TO_PAGE (PAGE_TO_ADDR ?p + 2 ^ j)]"
    using o(5) by (simp add: o(10) o(6))
  have stop: "i0 < MAX_ORDER \<longrightarrow> ADDR_TO_PAGE (BUDDY_ADDR (PAGE_TO_ADDR ?p) i0) \<notin> set (free_area s' i0)"
  proof
    assume "i0 < MAX_ORDER"
    then have "ADDR_TO_PAGE (BUDDY_ADDR (PAGE_TO_ADDR ?p) i0) \<notin> set (free_area s i0)"
      using buddy_invD(7)[OF inv] i0m pm unfolding coalesced_def by blast
    moreover have "set (free_area s' i0) \<subseteq> set (free_area s i0)"
      using o(4) by (simp add: o(10)) (metis list.set_sel(2) subsetI)
    ultimately show "ADDR_TO_PAGE (BUDDY_ADDR (PAGE_TO_ADDR ?p) i0) \<notin> set (free_area s' i0)" by blast
  qed
  have "free_area s'' = (\<lambda>j. if ord \<le> j \<and> j < i0 then [] else if j = i0 then ?p # free_area s' i0
                              else free_area s' j)"
    unfolding s''(3) using al o(1,2,3) F stop by (rule coalesce_undo_split)
  also have "\<dots> = free_area s"
    using o(4,5) by (auto simp: fun_eq_iff o(10))
  finally show ?thesis using s''(1,2) unfolding L by blast
qed

text \<open>
  C2.  Round trip with complete coalescing: in a reachable state, when \<open>buddy_alloc\<close>
  returns an address, releasing it at once succeeds and restores every free list (as a
  sequence, hence as a set); and every release of a live address succeeds and leaves
  no free block below \<open>MAX_ORDER\<close> with its buddy in the free list of the same order.
\<close>

theorem alloc_free_round_trip:
  assumes "reach s L"
  shows "(\<forall>size' s' a. buddy_alloc s size' = Some (s', Some a) \<longrightarrow>
            (\<exists>s''. buddy_free s' a = Some s'' \<and> (\<forall>i. set (free_area s'' i) = set (free_area s i))
                  \<and> free_area s'' = free_area s \<and> coalesced s''))
         \<and> (\<forall>a. a \<in> L \<longrightarrow> (\<exists>s'. buddy_free s a = Some s' \<and> coalesced s'))"
proof (intro conjI allI impI)
  have inv: "buddy_inv s L {}" using assms by (rule reach_inv)
  {
    fix size' s' a assume "buddy_alloc s size' = Some (s', Some a)"
    from round_trip_lists[OF inv this]
    obtain s'' where s'': "buddy_free s' a = Some s''" "free_area s'' = free_area s" "buddy_inv s'' L {}"
      by blast
    have "coalesced s''" using s''(3) by (rule buddy_invD(7))
    then show "\<exists>s''. buddy_free s' a = Some s'' \<and> (\<forall>i. set (free_area s'' i) = set (free_area s i))
                  \<and> free_area s'' = free_area s \<and> coalesced s''"
      using s''(1,2) by simp
  next
    fix a assume "a \<in> L"
    from buddy_free_correct[OF inv this]
    obtain s' where s': "buddy_free s a = Some s'" "buddy_inv s' (L - {a}) {}" by blast
    have "coalesced s'" using s'(2) by (rule buddy_invD(7))
    then show "\<exists>s'. buddy_free s a = Some s' \<and> coalesced s'" using s'(1) by simp
  }
qed

theorem alloc_free_round_trip_witness:
  "\<exists>s' s''. buddy_alloc buddy_init 4096 = Some (s', Some 0) \<and> reach s' {0}
      \<and> free_area s' 12 = [1] \<and> free_area s' 20 = []
      \<and> buddy_free s' 0 = Some s'' \<and> set (free_area s'' 20) = {0} \<and> free_area s'' 12 = []
      \<and> coalesced s''"
proof -
  from first_alloc obtain s' where s': "buddy_alloc buddy_init 4096 = Some (s', Some 0)" "reach s' {0}"
    "\<And>j. free_area s' j = (if 12 \<le> j \<and> j < 20 then [ADDR_TO_PAGE (2 ^ j)] else [])" by blast
  from alloc_free_round_trip[OF reach_init] s'(1)
  obtain s'' where s'': "buddy_free s' 0 = Some s''" "\<forall>i. set (free_area s'' i) = set (free_area buddy_init i)"
    "free_area s'' = free_area buddy_init" by blast
  from alloc_free_round_trip[OF s'(2)] s''(1) have c: "coalesced s''" by auto
  have "set (free_area s'' 20) = {0}" using s''(2) by (simp add: buddy_init_def MAX_ORDER_def)
  moreover have "free_area s'' 12 = []" using s''(3) by (simp add: buddy_init_def MAX_ORDER_def)
  moreover have "free_area s' 12 = [1]" "free_area s' 20 = []"
    by (simp_all add: s'(3) ADDR_TO_PAGE_def PAGE_SIZE_eq)
  ultimately show ?thesis using s'(1,2) s''(1) c by blast
qed

end
